theory Spec2Isabelle
  imports Main "HOL-Library.Word"
begin

section \<open>JavaScript strings\<close>

text \<open>
  A JavaScript string is a sequence of UTF-16 code units; \<open>length\<close>, \<open>substring\<close>,
  \<open>slice\<close> and \<open>lastIndexOf\<close> all count code units. A text received from the server may
  be absent (\<open>undefined\<close>), which is \<open>None\<close>.
\<close>

type_synonym jschar = "16 word"
type_synonym jsstring = "jschar list"

definition js :: "string \<Rightarrow> jsstring" where
  "js s = map (\<lambda>c. of_nat (of_char c)) s"

definition space :: jschar where
  "space = 0x20"

definition newline :: jschar where
  "newline = 0x0A"

definition paragraphBreak :: jsstring where
  "paragraphBreak = [newline, newline]"

definition ellipsis :: jsstring where
  "ellipsis = [0x2E, 0x2E, 0x2E]"

text \<open>The code units that \<open>String.prototype.trim\<close> strips: WhiteSpace and LineTerminator.\<close>

definition isWhiteSpace :: "jschar \<Rightarrow> bool" where
  "isWhiteSpace c \<longleftrightarrow>
     (0x09 \<le> c \<and> c \<le> 0x0D) \<or> c = 0x20 \<or> c = 0xA0 \<or> c = 0x1680 \<or>
     (0x2000 \<le> c \<and> c \<le> 0x200A) \<or> c = 0x2028 \<or> c = 0x2029 \<or> c = 0x202F \<or>
     c = 0x205F \<or> c = 0x3000 \<or> c = 0xFEFF"

definition trim :: "jsstring \<Rightarrow> jsstring" where
  "trim s = rev (dropWhile isWhiteSpace (rev (dropWhile isWhiteSpace s)))"

text \<open>\<open>x && x.trim()\<close> as a condition: the text is present, non-empty and not blank.\<close>

definition truthyText :: "jsstring option \<Rightarrow> bool" where
  "truthyText t = (case t of None \<Rightarrow> False | Some s \<Rightarrow> s \<noteq> [] \<and> trim s \<noteq> [])"

text \<open>The string of a text; only read where \<open>truthyText\<close> holds.\<close>

definition textOf :: "jsstring option \<Rightarrow> jsstring" where
  "textOf t = (case t of None \<Rightarrow> [] | Some s \<Rightarrow> s)"

text \<open>
  \<open>s.lastIndexOf(pat, pos)\<close>: the position is clamped to \<open>0 .. length s - length pat\<close>,
  the candidates are tried from there downwards, and \<open>-1\<close> says that none matched.
\<close>

fun matchDown :: "jsstring \<Rightarrow> jsstring \<Rightarrow> nat \<Rightarrow> int" where
  "matchDown s pat 0 = (if take (length pat) s = pat then 0 else - 1)"
| "matchDown s pat (Suc i) =
     (if take (length pat) (drop (Suc i) s) = pat then int (Suc i) else matchDown s pat i)"

definition lastIndexOf :: "jsstring \<Rightarrow> jsstring \<Rightarrow> int \<Rightarrow> int" where
  "lastIndexOf s pat pos =
     (if length s < length pat then - 1
      else matchDown s pat (nat (min (max pos 0) (int (length s) - int (length pat)))))"

text \<open>\<open>s.substring(start)\<close>: a negative start is 0, a start beyond the end gives the empty string.\<close>

definition substring :: "jsstring \<Rightarrow> int \<Rightarrow> jsstring" where
  "substring s start = drop (nat start) s"

text \<open>\<open>s.slice(-n)\<close> for a positive \<open>n\<close>: the last \<open>n\<close> code units, or all of \<open>s\<close> if it is shorter.\<close>

definition sliceLast :: "jsstring \<Rightarrow> nat \<Rightarrow> jsstring" where
  "sliceLast s n = drop (length s - n) s"

section \<open>The transcription buffer of the client\<close>

record transcriptionBuffer =
  arabic :: jsstring
  english :: jsstring
  lastUpdate :: int
  pauseThreshold :: int
  maxLength :: int

definition transcriptionBuffer0 :: transcriptionBuffer where
  "transcriptionBuffer0 =
     \<lparr>arabic = [], english = [], lastUpdate = 0, pauseThreshold = 2000, maxLength = 300\<rparr>"

subsection \<open>Compact policy\<close>

text \<open>
  Joining an incoming text to an accumulator: both sides are trimmed, and the separator is a
  single space for a continuation and a paragraph break otherwise.
\<close>

definition appendCompact :: "bool \<Rightarrow> jsstring \<Rightarrow> jsstring \<Rightarrow> jsstring" where
  "appendCompact continuation content text =
     (if continuation then trim content @ [space] @ trim text
      else trim content @ paragraphBreak @ trim text)"

text \<open>
  The length management of the Arabic accumulator: the point where the content is cut, and
  the cut. \<open>lastBreak > maxLength / 3\<close> compares an integer with a quotient, which is
  \<open>3 * lastBreak > maxLength\<close>.
\<close>

definition arabicTruncatePoint :: "int \<Rightarrow> jsstring \<Rightarrow> int" where
  "arabicTruncatePoint maxLen s =
     (let truncatePoint = int (length s) - maxLen + 100;
          lastBreak = lastIndexOf s paragraphBreak truncatePoint
      in if 3 * lastBreak > maxLen then lastBreak else truncatePoint)"

definition truncateArabic :: "int \<Rightarrow> jsstring \<Rightarrow> jsstring" where
  "truncateArabic maxLen s =
     (if int (length s) > maxLen
      then ellipsis @ substring s (arabicTruncatePoint maxLen s)
      else s)"

text \<open>
  The length management of the English accumulator. The source multiplies \<open>maxLength\<close> by
  \<open>0.8\<close>; \<open>maxLength\<close> is 300 in every buffer the client builds, and \<open>300 * 0.8\<close> is exactly
  240 in double arithmetic, so the product is written \<open>4 * maxLength div 5\<close>, and
  \<open>lastBreak > maxLength * 0.8 / 2\<close> is \<open>2 * lastBreak > 4 * maxLength div 5\<close>.
\<close>

definition englishTruncatePoint :: "int \<Rightarrow> jsstring \<Rightarrow> int" where
  "englishTruncatePoint maxLen s =
     (let truncatePoint = int (length s) - 4 * maxLen div 5 + 50;
          lastBreak = lastIndexOf s paragraphBreak truncatePoint
      in if 2 * lastBreak > 4 * maxLen div 5 then lastBreak else truncatePoint)"

definition truncateEnglish :: "int \<Rightarrow> jsstring \<Rightarrow> jsstring" where
  "truncateEnglish maxLen s =
     (if int (length s) > 4 * maxLen div 5
      then ellipsis @ substring s (englishTruncatePoint maxLen s)
      else s)"

definition isContinuation :: "transcriptionBuffer \<Rightarrow> int \<Rightarrow> bool" where
  "isContinuation b timestamp \<longleftrightarrow>
     timestamp - lastUpdate b < pauseThreshold b \<and> length (trim (arabic b)) > 0"

definition manageCompactTranscription ::
  "transcriptionBuffer \<Rightarrow> jsstring option \<Rightarrow> jsstring option \<Rightarrow> int \<Rightarrow> transcriptionBuffer" where
  "manageCompactTranscription b arabicText englishText timestamp =
     (let continuation = isContinuation b timestamp;
          b1 = (if truthyText arabicText
                then b\<lparr>arabic := truncateArabic (maxLength b)
                        (appendCompact continuation (arabic b) (textOf arabicText))\<rparr>
                else b);
          b2 = (if truthyText englishText
                then b1\<lparr>english := truncateEnglish (maxLength b1)
                        (appendCompact continuation (english b1) (textOf englishText))\<rparr>
                else b1)
      in b2\<lparr>lastUpdate := timestamp\<rparr>)"

text \<open>
  The page shows the trimmed accumulators: \<open>updateTranscriptionDisplay\<close>, which both
  policies call when they have updated the buffer, writes the text content of the two
  boxes, with a placeholder for an empty accumulator.
\<close>

record display =
  arabicTranscription :: jsstring
  englishTranscription :: jsstring

definition updateTranscriptionDisplay :: "transcriptionBuffer \<Rightarrow> display \<Rightarrow> display" where
  "updateTranscriptionDisplay b d =
     (let arabicText = trim (arabic b);
          englishText = trim (english b);
          d1 = (if arabicText \<noteq> arabicTranscription d
                then d\<lparr>arabicTranscription :=
                        (if arabicText \<noteq> [] then arabicText else js ''Waiting for speech...'')\<rparr>
                else d)
      in (if englishText \<noteq> englishTranscription d1
          then d1\<lparr>englishTranscription :=
                  (if englishText \<noteq> [] then englishText else js ''Waiting for translation...'')\<rparr>
          else d1))"

definition clearTranscriptions :: "transcriptionBuffer \<Rightarrow> transcriptionBuffer" where
  "clearTranscriptions b = b\<lparr>arabic := [], english := [], lastUpdate := 0\<rparr>"

subsection \<open>Cumulative policy\<close>

text \<open>
  Joining an incoming text to an accumulator that already shows text: the last character of
  the trimmed accumulator decides whether a space is needed, and the text is appended to
  the accumulator as it is.
\<close>

definition appendCumulative :: "jsstring \<Rightarrow> jsstring \<Rightarrow> jsstring" where
  "appendCumulative content text =
     (let clean = trim text
      in if trim content \<noteq> [] then
           (let lastChar = sliceLast (trim content) 1;
                needsSpace = (lastChar \<noteq> [] \<and> \<not> (lastChar = [space] \<or> lastChar = [newline]))
            in content @ (if needsSpace then [space] else []) @ clean)
         else clean)"

definition maxPrayerLength :: nat where
  "maxPrayerLength = 2000"

definition keepRecentPrayer :: "jsstring \<Rightarrow> jsstring" where
  "keepRecentPrayer s =
     (if length s > maxPrayerLength then ellipsis @ sliceLast s 1500 else s)"

definition manageCumulativeTranscription ::
  "transcriptionBuffer \<Rightarrow> jsstring option \<Rightarrow> jsstring option \<Rightarrow> transcriptionBuffer" where
  "manageCumulativeTranscription b arabicText englishText =
     (let b1 = (if truthyText arabicText
                then b\<lparr>arabic := keepRecentPrayer (appendCumulative (arabic b) (textOf arabicText))\<rparr>
                else b)
      in (if truthyText englishText
          then b1\<lparr>english := keepRecentPrayer (appendCumulative (english b1) (textOf englishText))\<rparr>
          else b1))"

text \<open>What reaches the buffer of the cumulative client: updates, and the reset of a new recording.\<close>

datatype bufferEvent = Update "jsstring option" "jsstring option" | Clear

fun cumulativeStep :: "transcriptionBuffer \<Rightarrow> bufferEvent \<Rightarrow> transcriptionBuffer" where
  "cumulativeStep b (Update arabicText englishText) =
     manageCumulativeTranscription b arabicText englishText"
| "cumulativeStep b Clear = clearTranscriptions b"

definition runCumulative :: "bufferEvent list \<Rightarrow> transcriptionBuffer" where
  "runCumulative events = foldl cumulativeStep transcriptionBuffer0 events"

fun hasParagraphBreak :: "jsstring \<Rightarrow> bool" where
  "hasParagraphBreak (a # b # s) = ((a = newline \<and> b = newline) \<or> hasParagraphBreak (b # s))"
| "hasParagraphBreak s = False"

fun eventHasParagraphBreak :: "bufferEvent \<Rightarrow> bool" where
  "eventHasParagraphBreak (Update arabicText englishText) =
     (hasParagraphBreak (textOf arabicText) \<or> hasParagraphBreak (textOf englishText))"
| "eventHasParagraphBreak Clear = False"

section \<open>The server\<close>

text \<open>
  The server keeps the received audio in \<open>audioBuffers\<close>, a variable of the module. A
  handler that calls \<open>processAudioChunk\<close> waits for the recognition and translation
  services; other events are handled while it waits, and when the call is done the handler
  goes on and empties \<open>audioBuffers\<close>. The calls that are under way are kept in \<open>inFlight\<close>,
  each with the socket it answers to and the buffers it was given; \<open>submitted\<close> records
  every call of \<open>processAudioChunk\<close>, and \<open>emitted\<close> every event sent to a client.
\<close>

type_synonym socketId = nat
type_synonym bytes = "8 word list"

datatype serverEvent =
    RecordingStarted
  | RecordingStopped
  | TranscriptionUpdate jsstring jsstring
  | ErrorEvent jsstring

text \<open>
  The outcome of a call of an external service: \<open>Inl\<close> the message of the error thrown,
  \<open>Inr\<close> the value returned. The recognition returns the transcript of the first
  alternative of each result.
\<close>

type_synonym recognition = "jsstring + jsstring list"
type_synonym translation = "jsstring + jsstring"

fun joinLines :: "jsstring list \<Rightarrow> jsstring" where
  "joinLines [] = []"
| "joinLines [t] = t"
| "joinLines (t # ts) = t @ [newline] @ joinLines ts"

record pipelineResult =
  recognizeCalls :: "bytes list"
  translateCalls :: "jsstring list"
  emits :: "serverEvent list"

definition processAudioChunk :: "bytes list \<Rightarrow> recognition \<Rightarrow> translation \<Rightarrow> pipelineResult" where
  "processAudioChunk buffers recognized translated =
     (let audioBuffer = concat buffers
      in case recognized of
           Inl message \<Rightarrow>
             \<lparr>recognizeCalls = [audioBuffer], translateCalls = [],
              emits = [ErrorEvent (js ''Error processing speech: '' @ message)]\<rparr>
         | Inr results \<Rightarrow>
             (let transcription = joinLines results
              in if transcription \<noteq> [] then
                   (case translated of
                      Inl message \<Rightarrow>
                        \<lparr>recognizeCalls = [audioBuffer], translateCalls = [transcription],
                         emits = [ErrorEvent (js ''Error processing speech: '' @ message)]\<rparr>
                    | Inr englishTranslation \<Rightarrow>
                        \<lparr>recognizeCalls = [audioBuffer], translateCalls = [transcription],
                         emits = [TranscriptionUpdate transcription englishTranslation]\<rparr>)
                 else
                   \<lparr>recognizeCalls = [audioBuffer], translateCalls = [], emits = []\<rparr>))"

record server =
  audioBuffers :: "bytes list"
  inFlight :: "(socketId \<times> bytes list) list"
  submitted :: "(socketId \<times> bytes list) list"
  emitted :: "(socketId \<times> serverEvent) list"

definition server0 :: server where
  "server0 = \<lparr>audioBuffers = [], inFlight = [], submitted = [], emitted = []\<rparr>"

datatype serverInput =
    StartRecording socketId
  | AudioChunk socketId bytes
  | StopRecording socketId
  | Disconnect socketId
  | PipelineDone nat recognition translation

text \<open>
  \<open>PipelineDone k r t\<close>: the call number \<open>k\<close> of those under way is done, the recognition
  having given \<open>r\<close> and the translation (if it was called) \<open>t\<close>; its handler then empties
  \<open>audioBuffers\<close>.
\<close>

fun handle :: "server \<Rightarrow> serverInput \<Rightarrow> server" where
  "handle s (StartRecording sid) =
     s\<lparr>audioBuffers := [], emitted := emitted s @ [(sid, RecordingStarted)]\<rparr>"
| "handle s (AudioChunk sid audioData) =
     (let s1 = s\<lparr>audioBuffers := audioBuffers s @ [audioData]\<rparr>
      in if length (audioBuffers s1) \<ge> 2
         then s1\<lparr>inFlight := inFlight s1 @ [(sid, audioBuffers s1)],
                 submitted := submitted s1 @ [(sid, audioBuffers s1)]\<rparr>
         else s1)"
| "handle s (StopRecording sid) =
     s\<lparr>emitted := emitted s @ [(sid, RecordingStopped)], audioBuffers := []\<rparr>"
| "handle s (Disconnect sid) = s\<lparr>audioBuffers := []\<rparr>"
| "handle s (PipelineDone k recognized translated) =
     (if k < length (inFlight s) then
        (let sid = fst (inFlight s ! k);
             buffers = snd (inFlight s ! k);
             result = processAudioChunk buffers recognized translated
         in s\<lparr>emitted := emitted s @ map (\<lambda>e. (sid, e)) (emits result),
               inFlight := take k (inFlight s) @ drop (Suc k) (inFlight s),
               audioBuffers := []\<rparr>)
      else s)"

definition runServer :: "serverInput list \<Rightarrow> server" where
  "runServer inputs = foldl handle server0 inputs"

section \<open>The recording controls of the client\<close>

text \<open>
  The variables of the script that the handlers of the recording read and write, the
  record button, the status line, and the calls made on the recorder and on the tracks of
  the audio stream. \<open>mediaRecorder\<close> and \<open>audioStream\<close> say whether the variable holds an
  object (\<open>False\<close> is \<open>null\<close>); the three labels stand for the three texts of the button.
\<close>

datatype buttonLabel = StartRecordingLabel | StopRecordingLabel | RecordingStoppedLabel

datatype browserCall = RecorderStop | TracksStop

record client =
  mediaRecorder :: bool
  audioStream :: bool
  isRecording :: bool
  chunks :: "bytes list"
  buttonText :: buttonLabel
  recordingClass :: bool
  stoppedClass :: bool
  statusText :: jsstring
  statusClass :: string
  statusShown :: bool
  browserCalls :: "browserCall list"

definition showStatus :: "jsstring \<Rightarrow> string \<Rightarrow> client \<Rightarrow> client" where
  "showStatus message type c =
     c\<lparr>statusClass := ''status-message '' @ type, statusText := message, statusShown := True\<rparr>"

definition stopRecording :: "client \<Rightarrow> client" where
  "stopRecording c =
     (if mediaRecorder c \<and> isRecording c then
        (let c1 = c\<lparr>browserCalls := browserCalls c @ [RecorderStop],
                     mediaRecorder := False, chunks := []\<rparr>
         in if audioStream c1
            then c1\<lparr>browserCalls := browserCalls c1 @ [TracksStop], audioStream := False\<rparr>
            else c1)
      else c)"

text \<open>The handler of the recorder's start event: only then the script takes the recording as running.\<close>

definition recorderOnStart :: "client \<Rightarrow> client" where
  "recorderOnStart c =
     showStatus (js ''Recording... Speak into your microphone'') ''success''
       (c\<lparr>isRecording := True\<rparr>)"

definition updateButtonState :: "string \<Rightarrow> client \<Rightarrow> client" where
  "updateButtonState state c =
     (let c1 = c\<lparr>recordingClass := False, stoppedClass := False\<rparr>
      in if state = ''recording''
         then c1\<lparr>buttonText := StopRecordingLabel, recordingClass := True\<rparr>
         else if state = ''stopped''
         then c1\<lparr>buttonText := RecordingStoppedLabel, stoppedClass := True\<rparr>
         else c1\<lparr>buttonText := StartRecordingLabel\<rparr>)"

definition onServerError :: "jsstring \<Rightarrow> client \<Rightarrow> client" where
  "onServerError error c =
     updateButtonState ''idle'' (stopRecording (showStatus (js ''Server error: '' @ error) ''error'' c))"

text \<open>
  Two states of the client. In \<open>startedClient\<close> the user has pressed the button and
  \<open>startRecording\<close> has run to its end: the button shows the recording look, the stream
  and the recorder are set, the recorder has been started and the status line says so,
  but the recorder's start event has not been handled yet, so \<open>isRecording\<close> is still
  false. In \<open>recordingClient\<close> that event has been handled.
\<close>

definition startedClient :: client where
  "startedClient =
     \<lparr>mediaRecorder = True, audioStream = True, isRecording = False, chunks = [],
      buttonText = StopRecordingLabel, recordingClass = True, stoppedClass = False,
      statusText = js ''Recording... Speak Arabic into your microphone'',
      statusClass = ''status-message success'', statusShown = True,
      browserCalls = []\<rparr>"

definition recordingClient :: client where
  "recordingClient = recorderOnStart startedClient"

section \<open>Texts of the example scenarios\<close>

text \<open>The three Arabic texts of the compact scenario, as UTF-16 code units.\<close>

definition bismillah :: jsstring where
  "bismillah = [0x0628, 0x0633, 0x0645, 0x0020, 0x0627, 0x0644, 0x0644, 0x0647]"

definition alrahman :: jsstring where
  "alrahman = [0x0627, 0x0644, 0x0631, 0x062D, 0x0645, 0x0646, 0x0020,
               0x0627, 0x0644, 0x0631, 0x062D, 0x064A, 0x0645]"

definition alhamd :: jsstring where
  "alhamd = [0x0627, 0x0644, 0x062D, 0x0645, 0x062F, 0x0020, 0x0644, 0x0644, 0x0647]"

section \<open>Facts about the string operations\<close>

lemma matchDown_cases:
  "matchDown s pat n = - 1 \<or>
   (0 \<le> matchDown s pat n \<and> matchDown s pat n \<le> int n
    \<and> take (length pat) (drop (nat (matchDown s pat n)) s) = pat)"
  by (induction n) (auto simp del: of_nat_Suc)

lemma matchDown_found:
  "take (length pat) (drop k s) = pat \<Longrightarrow> k \<le> n
   \<Longrightarrow> (\<And>j. k < j \<Longrightarrow> j \<le> n \<Longrightarrow> take (length pat) (drop j s) \<noteq> pat)
   \<Longrightarrow> matchDown s pat n = int k"
proof (induction n)
  case 0
  then show ?case by simp
next
  case (Suc n)
  show ?case
  proof (cases "k = Suc n")
    case True
    with Suc.prems(1) show ?thesis by simp
  next
    case False
    with Suc.prems(2) have kn: "k \<le> n" by simp
    have "take (length pat) (drop (Suc n) s) \<noteq> pat"
      using Suc.prems(3) [of "Suc n"] kn by simp
    moreover have "matchDown s pat n = int k"
      using Suc.IH [OF Suc.prems(1) kn] Suc.prems(3) by simp
    ultimately show ?thesis by simp
  qed
qed

lemma lastIndexOf_cases:
  assumes "0 \<le> pos"
  shows "lastIndexOf s pat pos = - 1 \<or>
     (0 \<le> lastIndexOf s pat pos \<and> lastIndexOf s pat pos \<le> pos
      \<and> take (length pat) (drop (nat (lastIndexOf s pat pos)) s) = pat)"
proof (cases "length s < length pat")
  case True
  then show ?thesis by (simp add: lastIndexOf_def)
next
  case False
  define n where "n = nat (min (max pos 0) (int (length s) - int (length pat)))"
  have n: "int n \<le> pos" using assms False by (simp add: n_def)
  have eq: "lastIndexOf s pat pos = matchDown s pat n"
    using False by (simp add: lastIndexOf_def n_def)
  show ?thesis
    using matchDown_cases [of s pat n] n unfolding eq by auto
qed

lemma length_ellipsis: "length ellipsis = 3"
  by (simp add: ellipsis_def)

lemma length_paragraphBreak: "length paragraphBreak = 2"
  by (simp add: paragraphBreak_def)

lemma trim_Nil: "trim [] = []"
  by (simp add: trim_def)

lemma dropWhile_hd: "s \<noteq> [] \<Longrightarrow> \<not> P (hd s) \<Longrightarrow> dropWhile P s = s"
  by (cases s) simp_all

lemma trim_clean:
  assumes "s \<noteq> []" and "\<not> isWhiteSpace (hd s)" and "\<not> isWhiteSpace (last s)"
  shows "trim s = s"
proof -
  have "dropWhile isWhiteSpace s = s"
    using assms by (simp add: dropWhile_hd)
  moreover have "dropWhile isWhiteSpace (rev s) = rev s"
    using assms by (simp add: dropWhile_hd hd_rev)
  ultimately show ?thesis by (simp add: trim_def)
qed

lemma trim_white_prefix:
  "(\<And>c. c \<in> set ws \<Longrightarrow> isWhiteSpace c) \<Longrightarrow> trim (ws @ s) = trim s"
  by (simp add: trim_def dropWhile_append2)

lemma white_space: "isWhiteSpace space" "isWhiteSpace newline"
  by (simp_all add: isWhiteSpace_def space_def newline_def)

lemma trim_paragraphBreak_prefix: "trim (paragraphBreak @ s) = trim s"
  by (rule trim_white_prefix) (auto simp: paragraphBreak_def white_space)

lemma letters_not_white: "\<not> isWhiteSpace 0x61" "\<not> isWhiteSpace 0x62"
  by (simp_all add: isWhiteSpace_def)

lemma trim_replicate: "\<not> isWhiteSpace c \<Longrightarrow> trim (replicate n c) = replicate n c"
  by (cases "n = 0") (simp_all add: trim_Nil trim_clean)

lemma truthy_replicate: "\<not> isWhiteSpace c \<Longrightarrow> 0 < n \<Longrightarrow> truthyText (Some (replicate n c))"
  by (simp add: truthyText_def trim_replicate)

lemma no_match_by_second:
  assumes "j + 1 < length s" and "s ! (j + 1) \<noteq> newline"
  shows "take 2 (drop j s) \<noteq> paragraphBreak"
proof
  assume eq: "take 2 (drop j s) = paragraphBreak"
  have "take 2 (drop j s) ! 1 = s ! (j + 1)"
    using assms(1) by simp
  with eq assms(2) show False
    by (simp add: paragraphBreak_def)
qed

text \<open>The backward search in a content whose only paragraph break is known.\<close>

lemma lastIndexOf_single_break:
  assumes "newline \<notin> set ys"
    and "int (length xs) \<le> pos" and "pos \<le> int (length xs) + int (length ys)"
  shows "lastIndexOf (xs @ paragraphBreak @ ys) paragraphBreak pos = int (length xs)"
proof -
  define s where "s = xs @ paragraphBreak @ ys"
  have len: "length s = length xs + 2 + length ys"
    by (simp add: s_def length_paragraphBreak)
  define n where "n = nat (min (max pos 0) (int (length s) - int (length paragraphBreak)))"
  have n: "n = nat pos"
    using assms(2,3) by (simp add: n_def len length_paragraphBreak)
  have eq: "lastIndexOf s paragraphBreak pos = matchDown s paragraphBreak n"
    by (simp add: lastIndexOf_def n_def len length_paragraphBreak)
  have here: "take (length paragraphBreak) (drop (length xs) s) = paragraphBreak"
    by (simp add: s_def)
  have above: "take (length paragraphBreak) (drop j s) \<noteq> paragraphBreak"
    if "length xs < j" and "j \<le> n" for j
  proof -
    have j1: "j + 1 < length s"
      using that assms(3) by (simp add: n len)
    have "\<not> j + 1 < length (xs @ paragraphBreak)"
      using that by (simp add: length_paragraphBreak)
    then have "((xs @ paragraphBreak) @ ys) ! (j + 1) = ys ! (j + 1 - length (xs @ paragraphBreak))"
      by (simp only: nth_append if_False)
    then have "s ! (j + 1) = ys ! (j + 1 - length xs - 2)"
      by (simp add: s_def length_paragraphBreak)
    moreover have "j + 1 - length xs - 2 < length ys"
      using j1 that by (simp add: len)
    ultimately have "s ! (j + 1) \<in> set ys"
      by simp
    with assms(1) have "s ! (j + 1) \<noteq> newline"
      by auto
    with j1 show ?thesis
      by (simp add: no_match_by_second length_paragraphBreak)
  qed
  have kn: "length xs \<le> n"
    using assms(2) by (simp add: n)
  have "matchDown s paragraphBreak n = int (length xs)"
    using matchDown_found [OF here kn] above by blast
  with eq show ?thesis
    by (simp add: s_def)
qed

lemma not_truthy_blank: "trim (textOf a) = [] \<Longrightarrow> \<not> truthyText a"
  by (cases a) (simp_all add: truthyText_def textOf_def)

lemma trim_single: "\<not> isWhiteSpace c \<Longrightarrow> trim [c] = [c]"
  by (simp add: trim_def)

lemma newline_not_letter: "newline \<noteq> 0x61" "newline \<noteq> 0x62"
  by (simp_all add: newline_def)

lemma lastIndexOf_greatest:
  assumes "take (length pat) (drop k s) = pat"
    and "int k \<le> pos" and "pos \<le> int (length s) - int (length pat)"
    and "\<And>j. k < j \<Longrightarrow> int j \<le> pos \<Longrightarrow> take (length pat) (drop j s) \<noteq> pat"
  shows "lastIndexOf s pat pos = int k"
proof -
  define n where "n = nat (min (max pos 0) (int (length s) - int (length pat)))"
  have n: "n = nat pos"
    using assms(2,3) by (simp add: n_def)
  have "\<not> length s < length pat"
    using assms(2,3) by simp
  then have eq: "lastIndexOf s pat pos = matchDown s pat n"
    by (simp add: lastIndexOf_def n_def)
  have kn: "k \<le> n"
    using assms(2) by (simp add: n)
  have "take (length pat) (drop j s) \<noteq> pat" if "k < j" and "j \<le> n" for j
    using assms(4) [of j] that assms(2) by (simp add: n)
  then have "matchDown s pat n = int k"
    using matchDown_found [OF assms(1) kn] by blast
  with eq show ?thesis by simp
qed

lemma no_break_after:
  assumes "newline \<notin> set ys" and "length xs < j" and "j + 1 < length (xs @ paragraphBreak @ ys)"
  shows "take 2 (drop j (xs @ paragraphBreak @ ys)) \<noteq> paragraphBreak"
proof -
  have "\<not> j + 1 < length (xs @ paragraphBreak)"
    using assms(2) by (simp add: length_paragraphBreak)
  then have "((xs @ paragraphBreak) @ ys) ! (j + 1) = ys ! (j + 1 - length (xs @ paragraphBreak))"
    by (simp only: nth_append if_False)
  moreover have "j + 1 - length (xs @ paragraphBreak) < length ys"
    using assms(2,3) by (simp add: length_paragraphBreak)
  ultimately have "(xs @ paragraphBreak @ ys) ! (j + 1) \<in> set ys"
    by simp
  with assms(1) have "(xs @ paragraphBreak @ ys) ! (j + 1) \<noteq> newline"
    by auto
  with assms(3) show ?thesis
    by (rule no_match_by_second)
qed

lemma break_here: "take 2 (drop (length xs) (xs @ paragraphBreak @ ys)) = paragraphBreak"
  by (simp add: paragraphBreak_def)

section \<open>The fields after a compact update\<close>

lemma arabic_manageCompact:
  "arabic (manageCompactTranscription b a e t) =
     (if truthyText a
      then truncateArabic (maxLength b) (appendCompact (isContinuation b t) (arabic b) (textOf a))
      else arabic b)"
  by (simp add: manageCompactTranscription_def Let_def)

lemma english_manageCompact:
  "english (manageCompactTranscription b a e t) =
     (if truthyText e
      then truncateEnglish (maxLength b) (appendCompact (isContinuation b t) (english b) (textOf e))
      else english b)"
  by (simp add: manageCompactTranscription_def Let_def)

lemma fields_manageCompact:
  "lastUpdate (manageCompactTranscription b a e t) = t"
  "pauseThreshold (manageCompactTranscription b a e t) = pauseThreshold b"
  "maxLength (manageCompactTranscription b a e t) = maxLength b"
  by (simp_all add: manageCompactTranscription_def Let_def)

section \<open>The truncation of the compact policy\<close>

lemma truncateArabic_short: "int (length s) \<le> m \<Longrightarrow> truncateArabic m s = s"
  by (simp add: truncateArabic_def)

lemma truncateEnglish_short: "int (length s) \<le> 4 * m div 5 \<Longrightarrow> truncateEnglish m s = s"
  by (simp add: truncateEnglish_def)

text \<open>The cut of the Arabic accumulator at the maximal length 300.\<close>

lemma arabicTruncatePoint_300:
  assumes "300 < length s"
  shows "100 < arabicTruncatePoint 300 s"
    and "arabicTruncatePoint 300 s \<le> int (length s) - 200"
    and "arabicTruncatePoint 300 s = int (length s) - 200
         \<or> (arabicTruncatePoint 300 s = lastIndexOf s paragraphBreak (int (length s) - 200)
            \<and> take 2 (drop (nat (arabicTruncatePoint 300 s)) s) = paragraphBreak)"
proof -
  define lb where "lb = lastIndexOf s paragraphBreak (int (length s) - 200)"
  have tp: "arabicTruncatePoint 300 s = (if 300 < 3 * lb then lb else int (length s) - 200)"
    by (simp add: arabicTruncatePoint_def Let_def lb_def)
  have pos: "0 \<le> int (length s) - 200" using assms by simp
  have c: "lb = - 1 \<or> (0 \<le> lb \<and> lb \<le> int (length s) - 200
      \<and> take 2 (drop (nat lb) s) = paragraphBreak)"
    using lastIndexOf_cases [OF pos, of s paragraphBreak]
    by (simp add: lb_def length_paragraphBreak)
  show "100 < arabicTruncatePoint 300 s" using assms by (simp add: tp)
  show "arabicTruncatePoint 300 s \<le> int (length s) - 200" using c by (auto simp: tp)
  show "arabicTruncatePoint 300 s = int (length s) - 200
         \<or> (arabicTruncatePoint 300 s = lastIndexOf s paragraphBreak (int (length s) - 200)
            \<and> take 2 (drop (nat (arabicTruncatePoint 300 s)) s) = paragraphBreak)"
    using c by (auto simp: tp lb_def)
qed

lemma englishTruncatePoint_300:
  assumes "240 < length s"
  shows "50 < englishTruncatePoint 300 s"
    and "englishTruncatePoint 300 s \<le> int (length s) - 190"
    and "englishTruncatePoint 300 s = int (length s) - 190
         \<or> (englishTruncatePoint 300 s = lastIndexOf s paragraphBreak (int (length s) - 190)
            \<and> take 2 (drop (nat (englishTruncatePoint 300 s)) s) = paragraphBreak)"
proof -
  define lb where "lb = lastIndexOf s paragraphBreak (int (length s) - 190)"
  have tp: "englishTruncatePoint 300 s = (if 240 < 2 * lb then lb else int (length s) - 190)"
    by (simp add: englishTruncatePoint_def Let_def lb_def)
  have pos: "0 \<le> int (length s) - 190" using assms by simp
  have c: "lb = - 1 \<or> (0 \<le> lb \<and> lb \<le> int (length s) - 190
      \<and> take 2 (drop (nat lb) s) = paragraphBreak)"
    using lastIndexOf_cases [OF pos, of s paragraphBreak]
    by (simp add: lb_def length_paragraphBreak)
  show "50 < englishTruncatePoint 300 s" using assms by (simp add: tp)
  show "englishTruncatePoint 300 s \<le> int (length s) - 190" using c by (auto simp: tp)
  show "englishTruncatePoint 300 s = int (length s) - 190
         \<or> (englishTruncatePoint 300 s = lastIndexOf s paragraphBreak (int (length s) - 190)
            \<and> take 2 (drop (nat (englishTruncatePoint 300 s)) s) = paragraphBreak)"
    using c by (auto simp: tp lb_def)
qed

lemma truncateArabic_300:
  assumes "300 < length s"
  shows "truncateArabic 300 s = ellipsis @ drop (nat (arabicTruncatePoint 300 s)) s"
    and "int (length (truncateArabic 300 s)) = int (length s) - arabicTruncatePoint 300 s + 3"
  using assms arabicTruncatePoint_300 [OF assms]
  by (simp_all add: truncateArabic_def substring_def length_ellipsis)

lemma truncateEnglish_300:
  assumes "240 < length s"
  shows "truncateEnglish 300 s = ellipsis @ drop (nat (englishTruncatePoint 300 s)) s"
    and "int (length (truncateEnglish 300 s)) = int (length s) - englishTruncatePoint 300 s + 3"
  using assms englishTruncatePoint_300 [OF assms]
  by (simp_all add: truncateEnglish_def substring_def length_ellipsis)

text \<open>Which cut point the backward search gives: the last marker above the threshold, or the default point.\<close>

lemma arabicTruncatePoint_marker:
  assumes "300 < length s" and "100 < k" and "k + 200 \<le> length s"
    and "take 2 (drop k s) = paragraphBreak"
    and "\<And>j. k < j \<Longrightarrow> j + 200 \<le> length s \<Longrightarrow> take 2 (drop j s) \<noteq> paragraphBreak"
  shows "arabicTruncatePoint 300 s = int k"
proof -
  have "lastIndexOf s paragraphBreak (int (length s) - 200) = int k"
  proof (rule lastIndexOf_greatest)
    show "take (length paragraphBreak) (drop k s) = paragraphBreak"
      using assms(4) by (simp add: length_paragraphBreak)
    show "int k \<le> int (length s) - 200"
      using assms(3) by simp
    show "int (length s) - 200 \<le> int (length s) - int (length paragraphBreak)"
      by (simp add: length_paragraphBreak)
    show "take (length paragraphBreak) (drop j s) \<noteq> paragraphBreak"
      if "k < j" and "int j \<le> int (length s) - 200" for j
      using assms(5) [of j] that by (simp add: length_paragraphBreak)
  qed
  then show ?thesis
    using assms(2) by (simp add: arabicTruncatePoint_def)
qed

lemma arabicTruncatePoint_default:
  assumes "300 < length s"
    and "\<And>k. 100 < k \<Longrightarrow> k + 200 \<le> length s \<Longrightarrow> take 2 (drop k s) \<noteq> paragraphBreak"
  shows "arabicTruncatePoint 300 s = int (length s) - 200"
proof (rule ccontr)
  assume other: "arabicTruncatePoint 300 s \<noteq> int (length s) - 200"
  define k where "k = nat (arabicTruncatePoint 300 s)"
  have "take 2 (drop k s) = paragraphBreak"
    using arabicTruncatePoint_300(3) [OF assms(1)] other unfolding k_def by blast
  moreover have "100 < k" and "k + 200 \<le> length s"
    using arabicTruncatePoint_300(1,2) [OF assms(1)] by (simp_all add: k_def)
  ultimately show False
    using assms(2) [of k] by simp
qed

lemma englishTruncatePoint_marker:
  assumes "240 < length s" and "120 < k" and "k + 190 \<le> length s"
    and "take 2 (drop k s) = paragraphBreak"
    and "\<And>j. k < j \<Longrightarrow> j + 190 \<le> length s \<Longrightarrow> take 2 (drop j s) \<noteq> paragraphBreak"
  shows "englishTruncatePoint 300 s = int k"
proof -
  have "lastIndexOf s paragraphBreak (int (length s) - 190) = int k"
  proof (rule lastIndexOf_greatest)
    show "take (length paragraphBreak) (drop k s) = paragraphBreak"
      using assms(4) by (simp add: length_paragraphBreak)
    show "int k \<le> int (length s) - 190"
      using assms(3) by simp
    show "int (length s) - 190 \<le> int (length s) - int (length paragraphBreak)"
      by (simp add: length_paragraphBreak)
    show "take (length paragraphBreak) (drop j s) \<noteq> paragraphBreak"
      if "k < j" and "int j \<le> int (length s) - 190" for j
      using assms(5) [of j] that by (simp add: length_paragraphBreak)
  qed
  then show ?thesis
    using assms(2) by (simp add: englishTruncatePoint_def)
qed

lemma englishTruncatePoint_default:
  assumes "240 < length s"
    and "\<And>k. 120 < k \<Longrightarrow> k + 190 \<le> length s \<Longrightarrow> take 2 (drop k s) \<noteq> paragraphBreak"
  shows "englishTruncatePoint 300 s = int (length s) - 190"
proof -
  define lb where "lb = lastIndexOf s paragraphBreak (int (length s) - 190)"
  have tp: "englishTruncatePoint 300 s = (if 240 < 2 * lb then lb else int (length s) - 190)"
    by (simp add: englishTruncatePoint_def Let_def lb_def)
  have pos: "0 \<le> int (length s) - 190" using assms(1) by simp
  have c: "lb = - 1 \<or> (0 \<le> lb \<and> lb \<le> int (length s) - 190
      \<and> take 2 (drop (nat lb) s) = paragraphBreak)"
    using lastIndexOf_cases [OF pos, of s paragraphBreak]
    by (simp add: lb_def length_paragraphBreak)
  have "\<not> 240 < 2 * lb"
  proof
    assume big: "240 < 2 * lb"
    with c have "take 2 (drop (nat lb) s) = paragraphBreak" and "lb \<le> int (length s) - 190"
      by auto
    moreover have "120 < nat lb" using big by simp
    ultimately show False
      using assms(2) [of "nat lb"] by simp
  qed
  then show ?thesis by (simp add: tp)
qed

section \<open>The compact scenario\<close>

lemma trim_texts:
  "trim bismillah = bismillah" "trim alrahman = alrahman" "trim alhamd = alhamd"
  by (simp_all add: trim_def bismillah_def alrahman_def alhamd_def isWhiteSpace_def)

lemma truthy_texts:
  "truthyText (Some bismillah)" "truthyText (Some alrahman)" "truthyText (Some alhamd)"
  by (simp_all add: truthyText_def trim_texts) (simp_all add: bismillah_def alrahman_def alhamd_def)

lemma length_texts:
  "length bismillah = 8" "length alrahman = 13" "length alhamd = 9"
  by (simp_all add: bismillah_def alrahman_def alhamd_def)

lemma trim_break_bismillah: "trim (paragraphBreak @ bismillah) = bismillah"
  by (simp add: trim_def paragraphBreak_def newline_def bismillah_def isWhiteSpace_def)

lemma trim_line1: "trim (bismillah @ [space] @ alrahman) = bismillah @ [space] @ alrahman"
  by (simp add: trim_def space_def bismillah_def alrahman_def isWhiteSpace_def)

text \<open>
  Claim C5. From the empty buffer (pause threshold 2000, maximal length 300), whatever
  the English texts of the updates are and whatever the page showed before: the update
  at time 0 with the first text gives the content paragraph break + text, shown trimmed as
  the text alone; the update at time 1000 with the second text gives the two texts joined
  by one space; the update at time 5000 with the third text appends a paragraph break and
  the third text.
\<close>

theorem compact_example_scenario:
  "arabic (manageCompactTranscription transcriptionBuffer0 (Some bismillah) e1 0)
     = paragraphBreak @ bismillah
   \<and> arabicTranscription (updateTranscriptionDisplay
        (manageCompactTranscription transcriptionBuffer0 (Some bismillah) e1 0) d) = bismillah
   \<and> arabic (manageCompactTranscription
        (manageCompactTranscription transcriptionBuffer0 (Some bismillah) e1 0)
        (Some alrahman) e2 1000)
     = bismillah @ [space] @ alrahman
   \<and> arabic (manageCompactTranscription
        (manageCompactTranscription
          (manageCompactTranscription transcriptionBuffer0 (Some bismillah) e1 0)
          (Some alrahman) e2 1000)
        (Some alhamd) e3 5000)
     = bismillah @ [space] @ alrahman @ paragraphBreak @ alhamd"
proof -
  define b1 where "b1 = manageCompactTranscription transcriptionBuffer0 (Some bismillah) e1 0"
  define b2 where "b2 = manageCompactTranscription b1 (Some alrahman) e2 1000"
  define b3 where "b3 = manageCompactTranscription b2 (Some alhamd) e3 5000"
  have a1: "arabic b1 = paragraphBreak @ bismillah"
    by (simp add: b1_def arabic_manageCompact truthy_texts isContinuation_def
        transcriptionBuffer0_def trim_def appendCompact_def textOf_def truncateArabic_def
        paragraphBreak_def length_texts trim_texts [unfolded trim_def])
  have m1: "lastUpdate b1 = 0" "pauseThreshold b1 = 2000" "maxLength b1 = 300"
    by (simp_all add: b1_def fields_manageCompact transcriptionBuffer0_def)
  have d1: "arabicTranscription (updateTranscriptionDisplay b1 d) = bismillah"
    by (simp add: updateTranscriptionDisplay_def Let_def a1 trim_break_bismillah)
       (simp add: bismillah_def)
  have a2: "arabic b2 = bismillah @ [space] @ alrahman"
    by (simp add: b2_def arabic_manageCompact truthy_texts isContinuation_def a1 m1
        trim_break_bismillah trim_texts appendCompact_def textOf_def truncateArabic_def
        length_texts)
  have m2: "lastUpdate b2 = 1000" "pauseThreshold b2 = 2000" "maxLength b2 = 300"
    by (simp_all add: b2_def fields_manageCompact m1)
  have a3: "arabic b3 = bismillah @ [space] @ alrahman @ paragraphBreak @ alhamd"
    by (simp add: b3_def arabic_manageCompact truthy_texts isContinuation_def a2 m2
        trim_line1 [simplified] trim_texts appendCompact_def textOf_def truncateArabic_def
        length_texts paragraphBreak_def)
  show ?thesis
    using a1 d1 a2 a3 unfolding b1_def b2_def b3_def by simp
qed

section \<open>Truncation in the compact policy\<close>

text \<open>
  Claim C1, as the code has it. With the maximal length 300, when the content of the
  Arabic accumulator after the append is longer than 300 (of the English one: longer than
  240), it becomes the ellipsis followed by the content from the cut point on: a suffix
  of the content before the truncation, so the result is never empty. The default cut
  point is 200 (English: 190) characters before the end. When a paragraph break starts at
  an index above 100 (English: above 120) that is at or before the default point, the cut
  is made at the last such paragraph break, and the result has the length of the content
  minus that index plus 3; when there is none, the cut is made at the default point and
  the result has 203 (English: 193) characters. In every case the result has at least 203
  (English: 193) characters and is shorter than the content before the truncation.
\<close>

theorem compact_truncation_cut_point:
  assumes "maxLength b = 300"
    and "preA = appendCompact (isContinuation b t) (arabic b) (textOf a)"
    and "preE = appendCompact (isContinuation b t) (english b) (textOf e)"
  shows "(truthyText a \<and> 300 < length preA \<longrightarrow>
            (\<forall>k. 100 < k \<and> k + 200 \<le> length preA \<and> take 2 (drop k preA) = paragraphBreak
                 \<and> (\<forall>j. k < j \<and> j + 200 \<le> length preA
                        \<longrightarrow> take 2 (drop j preA) \<noteq> paragraphBreak)
               \<longrightarrow> arabic (manageCompactTranscription b a e t) = ellipsis @ drop k preA
                 \<and> length (arabic (manageCompactTranscription b a e t)) = length preA - k + 3)
          \<and> ((\<forall>k. 100 < k \<and> k + 200 \<le> length preA
                   \<longrightarrow> take 2 (drop k preA) \<noteq> paragraphBreak)
               \<longrightarrow> arabic (manageCompactTranscription b a e t)
                     = ellipsis @ drop (length preA - 200) preA
                 \<and> length (arabic (manageCompactTranscription b a e t)) = 203)
          \<and> (\<exists>k. 100 < k \<and> k + 200 \<le> length preA
                 \<and> arabic (manageCompactTranscription b a e t) = ellipsis @ drop k preA)
          \<and> 203 \<le> length (arabic (manageCompactTranscription b a e t))
          \<and> length (arabic (manageCompactTranscription b a e t)) < length preA)
       \<and> (truthyText e \<and> 240 < length preE \<longrightarrow>
            (\<forall>k. 120 < k \<and> k + 190 \<le> length preE \<and> take 2 (drop k preE) = paragraphBreak
                 \<and> (\<forall>j. k < j \<and> j + 190 \<le> length preE
                        \<longrightarrow> take 2 (drop j preE) \<noteq> paragraphBreak)
               \<longrightarrow> english (manageCompactTranscription b a e t) = ellipsis @ drop k preE
                 \<and> length (english (manageCompactTranscription b a e t)) = length preE - k + 3)
          \<and> ((\<forall>k. 120 < k \<and> k + 190 \<le> length preE
                   \<longrightarrow> take 2 (drop k preE) \<noteq> paragraphBreak)
               \<longrightarrow> english (manageCompactTranscription b a e t)
                     = ellipsis @ drop (length preE - 190) preE
                 \<and> length (english (manageCompactTranscription b a e t)) = 193)
          \<and> (\<exists>k. 50 < k \<and> k + 190 \<le> length preE
                 \<and> english (manageCompactTranscription b a e t) = ellipsis @ drop k preE)
          \<and> 193 \<le> length (english (manageCompactTranscription b a e t))
          \<and> length (english (manageCompactTranscription b a e t)) < length preE)"
proof (intro conjI impI allI)
  assume h: "truthyText a \<and> 300 < length preA"
  then have long: "300 < length preA" by simp
  have res: "arabic (manageCompactTranscription b a e t) = truncateArabic 300 preA"
    using h assms(1,2) by (simp add: arabic_manageCompact)
  note cut = arabicTruncatePoint_300 [OF long]
  note tr = truncateArabic_300 [OF long]
  define c where "c = nat (arabicTruncatePoint 300 preA)"
  have c: "100 < c" "c + 200 \<le> length preA"
    using cut(1,2) by (simp_all add: c_def)
  have resc: "arabic (manageCompactTranscription b a e t) = ellipsis @ drop c preA"
    using tr(1) res by (simp add: c_def)
  have lenc: "length (arabic (manageCompactTranscription b a e t)) = length preA - c + 3"
    using resc c by (simp add: length_ellipsis)
  show "\<exists>k. 100 < k \<and> k + 200 \<le> length preA
      \<and> arabic (manageCompactTranscription b a e t) = ellipsis @ drop k preA"
    using c resc by blast
  show "203 \<le> length (arabic (manageCompactTranscription b a e t))"
    using lenc c by simp
  show "length (arabic (manageCompactTranscription b a e t)) < length preA"
    using lenc c by simp
  {
    fix k
    assume m: "100 < k \<and> k + 200 \<le> length preA \<and> take 2 (drop k preA) = paragraphBreak
      \<and> (\<forall>j. k < j \<and> j + 200 \<le> length preA \<longrightarrow> take 2 (drop j preA) \<noteq> paragraphBreak)"
    have "arabicTruncatePoint 300 preA = int k"
      using m by (intro arabicTruncatePoint_marker [OF long]) simp_all
    then have ck: "c = k" by (simp add: c_def)
    show "arabic (manageCompactTranscription b a e t) = ellipsis @ drop k preA"
      using resc ck by simp
    show "length (arabic (manageCompactTranscription b a e t)) = length preA - k + 3"
      using lenc ck by simp
  }
  {
    assume m: "\<forall>k. 100 < k \<and> k + 200 \<le> length preA
      \<longrightarrow> take 2 (drop k preA) \<noteq> paragraphBreak"
    have "arabicTruncatePoint 300 preA = int (length preA) - 200"
      using m by (intro arabicTruncatePoint_default [OF long]) simp
    then have ck: "c = length preA - 200" by (simp add: c_def)
    show "arabic (manageCompactTranscription b a e t)
        = ellipsis @ drop (length preA - 200) preA"
      using resc ck by simp
    show "length (arabic (manageCompactTranscription b a e t)) = 203"
      using lenc ck long by simp
  }
next
  assume h: "truthyText e \<and> 240 < length preE"
  then have long: "240 < length preE" by simp
  have res: "english (manageCompactTranscription b a e t) = truncateEnglish 300 preE"
    using h assms(1,3) by (simp add: english_manageCompact)
  note cut = englishTruncatePoint_300 [OF long]
  note tr = truncateEnglish_300 [OF long]
  define c where "c = nat (englishTruncatePoint 300 preE)"
  have c: "50 < c" "c + 190 \<le> length preE"
    using cut(1,2) by (simp_all add: c_def)
  have resc: "english (manageCompactTranscription b a e t) = ellipsis @ drop c preE"
    using tr(1) res by (simp add: c_def)
  have lenc: "length (english (manageCompactTranscription b a e t)) = length preE - c + 3"
    using resc c by (simp add: length_ellipsis)
  show "\<exists>k. 50 < k \<and> k + 190 \<le> length preE
      \<and> english (manageCompactTranscription b a e t) = ellipsis @ drop k preE"
    using c resc by blast
  show "193 \<le> length (english (manageCompactTranscription b a e t))"
    using lenc c by simp
  show "length (english (manageCompactTranscription b a e t)) < length preE"
    using lenc c by simp
  {
    fix k
    assume m: "120 < k \<and> k + 190 \<le> length preE \<and> take 2 (drop k preE) = paragraphBreak
      \<and> (\<forall>j. k < j \<and> j + 190 \<le> length preE \<longrightarrow> take 2 (drop j preE) \<noteq> paragraphBreak)"
    have "englishTruncatePoint 300 preE = int k"
      using m by (intro englishTruncatePoint_marker [OF long]) simp_all
    then have ck: "c = k" by (simp add: c_def)
    show "english (manageCompactTranscription b a e t) = ellipsis @ drop k preE"
      using resc ck by simp
    show "length (english (manageCompactTranscription b a e t)) = length preE - k + 3"
      using lenc ck by simp
  }
  {
    assume m: "\<forall>k. 120 < k \<and> k + 190 \<le> length preE
      \<longrightarrow> take 2 (drop k preE) \<noteq> paragraphBreak"
    have "englishTruncatePoint 300 preE = int (length preE) - 190"
      using m by (intro englishTruncatePoint_default [OF long]) simp
    then have ck: "c = length preE - 190" by (simp add: c_def)
    show "english (manageCompactTranscription b a e t)
        = ellipsis @ drop (length preE - 190) preE"
      using resc ck by simp
    show "length (english (manageCompactTranscription b a e t)) = 193"
      using lenc ck long by simp
  }
qed

text \<open>
  The theorem at four truncations, each of a buffer of letters that receives 300 letters
  after a pause. With 105 Arabic and 125 English letters the paragraph break lies above
  the threshold and the cut is made there; with 100 Arabic and 120 English letters it lies
  on the threshold and the cut is made at the default point.
\<close>

theorem compact_truncation_cut_point_witness:
  "maxLength (transcriptionBuffer0\<lparr>arabic := replicate 105 0x61, english := replicate 125 0x61\<rparr>) = 300
   \<and> maxLength (transcriptionBuffer0\<lparr>arabic := replicate 100 0x61, english := replicate 120 0x61\<rparr>) = 300
   \<and> truthyText (Some (replicate 300 0x62))
   \<and> arabic (manageCompactTranscription
        (transcriptionBuffer0\<lparr>arabic := replicate 105 0x61, english := replicate 125 0x61\<rparr>)
        (Some (replicate 300 0x62)) (Some (replicate 300 0x62)) 5000)
      = ellipsis @ paragraphBreak @ replicate 300 0x62
   \<and> english (manageCompactTranscription
        (transcriptionBuffer0\<lparr>arabic := replicate 105 0x61, english := replicate 125 0x61\<rparr>)
        (Some (replicate 300 0x62)) (Some (replicate 300 0x62)) 5000)
      = ellipsis @ paragraphBreak @ replicate 300 0x62
   \<and> arabic (manageCompactTranscription
        (transcriptionBuffer0\<lparr>arabic := replicate 100 0x61, english := replicate 120 0x61\<rparr>)
        (Some (replicate 300 0x62)) (Some (replicate 300 0x62)) 5000)
      = ellipsis @ replicate 200 0x62
   \<and> english (manageCompactTranscription
        (transcriptionBuffer0\<lparr>arabic := replicate 100 0x61, english := replicate 120 0x61\<rparr>)
        (Some (replicate 300 0x62)) (Some (replicate 300 0x62)) 5000)
      = ellipsis @ replicate 190 0x62"
proof -
  define t300 where "t300 = replicate 300 (0x62 :: jschar)"
  have tt: "truthyText (Some t300)"
    by (simp add: t300_def truthy_replicate letters_not_white)
  have lt: "length t300 = 300"
    by (simp add: t300_def)
  have nl: "newline \<notin> set t300"
    by (simp add: t300_def newline_not_letter)
  have pre: "appendCompact (isContinuation b 5000) (replicate n 0x61) (textOf (Some t300))
      = replicate n 0x61 @ paragraphBreak @ t300"
    if "lastUpdate b = 0" and "pauseThreshold b = 2000" for b n
    using that
    by (simp add: isContinuation_def appendCompact_def textOf_def trim_replicate
        letters_not_white t300_def)
  have len: "length (replicate n (0x61 :: jschar) @ paragraphBreak @ t300) = n + 302" for n
    by (simp add: lt length_paragraphBreak)
  have here: "take 2 (drop n (replicate n (0x61 :: jschar) @ paragraphBreak @ t300)) = paragraphBreak"
    for n
    using break_here [of "replicate n 0x61" t300] by simp
  have after: "take 2 (drop j (replicate n (0x61 :: jschar) @ paragraphBreak @ t300))
      \<noteq> paragraphBreak"
    if "n < j" and "j + 1 < n + 302" for j n
  proof -
    have "length (replicate n (0x61 :: jschar)) < j"
      using that(1) by simp
    moreover have "j + 1 < length (replicate n (0x61 :: jschar) @ paragraphBreak @ t300)"
      using that(2) by (simp only: len)
    ultimately show ?thesis
      by (rule no_break_after [OF nl])
  qed
  have nomark: "\<forall>j. n < j \<and> j + d \<le> length (replicate n (0x61 :: jschar) @ paragraphBreak @ t300)
      \<longrightarrow> take 2 (drop j (replicate n (0x61 :: jschar) @ paragraphBreak @ t300)) \<noteq> paragraphBreak"
    if "1 < d" for n d
  proof (intro allI impI)
    fix j
    assume "n < j \<and> j + d \<le> length (replicate n (0x61 :: jschar) @ paragraphBreak @ t300)"
    then have "n < j" and "j + d \<le> n + 302"
      by (simp_all only: len)
    with that have "n < j" and "j + 1 < n + 302"
      by simp_all
    then show "take 2 (drop j (replicate n (0x61 :: jschar) @ paragraphBreak @ t300)) \<noteq> paragraphBreak"
      by (rule after)
  qed

  define bm where
    "bm = transcriptionBuffer0\<lparr>arabic := replicate 105 0x61, english := replicate 125 0x61\<rparr>"
  define pa where "pa = replicate 105 (0x61 :: jschar) @ paragraphBreak @ t300"
  define pe where "pe = replicate 125 (0x61 :: jschar) @ paragraphBreak @ t300"
  have m: "maxLength bm = 300" "lastUpdate bm = 0" "pauseThreshold bm = 2000"
    "arabic bm = replicate 105 0x61" "english bm = replicate 125 0x61"
    by (simp_all add: bm_def transcriptionBuffer0_def)
  have pa: "pa = appendCompact (isContinuation bm 5000) (arabic bm) (textOf (Some t300))"
    by (simp only: m(4) pre [OF m(2,3)] pa_def)
  have pe: "pe = appendCompact (isContinuation bm 5000) (english bm) (textOf (Some t300))"
    by (simp only: m(5) pre [OF m(2,3)] pe_def)
  have la: "300 < length pa" "(100::nat) < 105" "105 + 200 \<le> length pa"
    by (simp_all add: pa_def lt length_paragraphBreak)
  have ha: "take 2 (drop 105 pa) = paragraphBreak"
    unfolding pa_def by (rule here)
  have aa: "\<forall>j. 105 < j \<and> j + 200 \<le> length pa \<longrightarrow> take 2 (drop j pa) \<noteq> paragraphBreak"
    unfolding pa_def by (rule nomark) simp
  have le: "240 < length pe" "(120::nat) < 125" "125 + 190 \<le> length pe"
    by (simp_all add: pe_def lt length_paragraphBreak)
  have he: "take 2 (drop 125 pe) = paragraphBreak"
    unfolding pe_def by (rule here)
  have ae: "\<forall>j. 125 < j \<and> j + 190 \<le> length pe \<longrightarrow> take 2 (drop j pe) \<noteq> paragraphBreak"
    unfolding pe_def by (rule nomark) simp
  note T = compact_truncation_cut_point [OF m(1) pa pe]
  have ra: "arabic (manageCompactTranscription bm (Some t300) (Some t300) 5000)
      = ellipsis @ drop 105 pa"
    using T tt la ha aa by blast
  have re: "english (manageCompactTranscription bm (Some t300) (Some t300) 5000)
      = ellipsis @ drop 125 pe"
    using T tt le he ae by blast

  define bd where
    "bd = transcriptionBuffer0\<lparr>arabic := replicate 100 0x61, english := replicate 120 0x61\<rparr>"
  define qa where "qa = replicate 100 (0x61 :: jschar) @ paragraphBreak @ t300"
  define qe where "qe = replicate 120 (0x61 :: jschar) @ paragraphBreak @ t300"
  have d: "maxLength bd = 300" "lastUpdate bd = 0" "pauseThreshold bd = 2000"
    "arabic bd = replicate 100 0x61" "english bd = replicate 120 0x61"
    by (simp_all add: bd_def transcriptionBuffer0_def)
  have qa: "qa = appendCompact (isContinuation bd 5000) (arabic bd) (textOf (Some t300))"
    by (simp only: d(4) pre [OF d(2,3)] qa_def)
  have qe: "qe = appendCompact (isContinuation bd 5000) (english bd) (textOf (Some t300))"
    by (simp only: d(5) pre [OF d(2,3)] qe_def)
  have lqa: "300 < length qa" "length qa - 200 = 202"
    by (simp_all add: qa_def lt length_paragraphBreak)
  have nqa: "\<forall>k. 100 < k \<and> k + 200 \<le> length qa \<longrightarrow> take 2 (drop k qa) \<noteq> paragraphBreak"
    unfolding qa_def by (rule nomark) simp
  have lqe: "240 < length qe" "length qe - 190 = 232"
    by (simp_all add: qe_def lt length_paragraphBreak)
  have nqe: "\<forall>k. 120 < k \<and> k + 190 \<le> length qe \<longrightarrow> take 2 (drop k qe) \<noteq> paragraphBreak"
    unfolding qe_def by (rule nomark) simp
  note D = compact_truncation_cut_point [OF d(1) qa qe]
  have da: "arabic (manageCompactTranscription bd (Some t300) (Some t300) 5000)
      = ellipsis @ drop (length qa - 200) qa"
    using D tt lqa(1) nqa by blast
  have de: "english (manageCompactTranscription bd (Some t300) (Some t300) 5000)
      = ellipsis @ drop (length qe - 190) qe"
    using D tt lqe(1) nqe by blast

  have "arabic (manageCompactTranscription bm (Some t300) (Some t300) 5000)
      = ellipsis @ paragraphBreak @ t300"
    unfolding ra by (simp add: pa_def)
  moreover have "english (manageCompactTranscription bm (Some t300) (Some t300) 5000)
      = ellipsis @ paragraphBreak @ t300"
    unfolding re by (simp add: pe_def)
  moreover have "arabic (manageCompactTranscription bd (Some t300) (Some t300) 5000)
      = ellipsis @ replicate 200 0x62"
    unfolding da lqa(2) by (simp add: qa_def length_paragraphBreak t300_def)
  moreover have "english (manageCompactTranscription bd (Some t300) (Some t300) 5000)
      = ellipsis @ replicate 190 0x62"
    unfolding de lqe(2) by (simp add: qe_def length_paragraphBreak t300_def)
  ultimately show ?thesis
    using m(1) d(1) tt unfolding bm_def bd_def t300_def by simp
qed

text \<open>
  The bound of claim C1 fails: from the empty buffer, a text of 120 letters at time 0 and
  a text of 300 letters at time 5000 leave an Arabic content of 305 characters, the
  ellipsis, the paragraph break and the whole second text, which is more than 300 + 3.
\<close>

theorem compact_truncation_bound_counterexample:
  "maxLength (manageCompactTranscription
      (manageCompactTranscription transcriptionBuffer0 (Some (replicate 120 0x61)) None 0)
      (Some (replicate 300 0x62)) None 5000) = 300
   \<and> arabic (manageCompactTranscription
      (manageCompactTranscription transcriptionBuffer0 (Some (replicate 120 0x61)) None 0)
      (Some (replicate 300 0x62)) None 5000)
     = ellipsis @ paragraphBreak @ replicate 300 0x62
   \<and> length (arabic (manageCompactTranscription
      (manageCompactTranscription transcriptionBuffer0 (Some (replicate 120 0x61)) None 0)
      (Some (replicate 300 0x62)) None 5000)) = 305"
proof -
  define b1 where
    "b1 = manageCompactTranscription transcriptionBuffer0 (Some (replicate 120 0x61)) None 0"
  define s where "s = replicate 120 (0x61 :: jschar) @ paragraphBreak @ replicate 300 0x62"
  have a1: "arabic b1 = paragraphBreak @ replicate 120 0x61"
    by (simp add: b1_def arabic_manageCompact truthy_replicate letters_not_white
        isContinuation_def transcriptionBuffer0_def trim_Nil appendCompact_def textOf_def
        trim_replicate truncateArabic_short length_paragraphBreak)
  have m1: "lastUpdate b1 = 0" "pauseThreshold b1 = 2000" "maxLength b1 = 300"
    by (simp_all add: b1_def fields_manageCompact transcriptionBuffer0_def)
  have tr1: "trim (arabic b1) = replicate 120 0x61"
    by (simp add: a1 trim_paragraphBreak_prefix trim_replicate letters_not_white)
  have pre: "appendCompact (isContinuation b1 5000) (arabic b1) (textOf (Some (replicate 300 0x62))) = s"
    by (simp add: isContinuation_def m1 appendCompact_def tr1 textOf_def trim_replicate
        letters_not_white s_def)
  have len: "length s = 422"
    by (simp add: s_def length_paragraphBreak)
  have lb: "lastIndexOf s paragraphBreak 222 = 120"
    unfolding s_def
    using lastIndexOf_single_break [of "replicate 300 0x62" "replicate 120 0x61" 222]
    by (simp add: newline_not_letter)
  have cut: "arabicTruncatePoint 300 s = 120"
    by (simp add: arabicTruncatePoint_def len lb)
  have res: "truncateArabic 300 s = ellipsis @ paragraphBreak @ replicate 300 0x62"
    using truncateArabic_300(1) [of s] by (simp add: len cut) (simp add: s_def)
  have a2: "arabic (manageCompactTranscription b1 (Some (replicate 300 0x62)) None 5000)
      = ellipsis @ paragraphBreak @ replicate 300 0x62"
    by (simp add: arabic_manageCompact truthy_replicate letters_not_white pre m1 res)
  show ?thesis
    unfolding b1_def [symmetric]
    by (simp add: a2 fields_manageCompact m1 length_ellipsis length_paragraphBreak)
qed

section \<open>Blank updates in the compact policy\<close>

text \<open>
  Claim C9. An update whose two texts are absent, empty or blank leaves both accumulators
  as they are and sets \<open>lastUpdate\<close> to its timestamp. So it resets the pause clock: after
  a first text at time 0, a second text at time 3000 starts a new paragraph, but when a
  blank update comes in between at time 2500 the second text is joined with a space.
\<close>

theorem blank_update_resets_pause_clock:
  assumes "trim (textOf a) = []" and "trim (textOf e) = []"
  shows "arabic (manageCompactTranscription b a e t) = arabic b
       \<and> english (manageCompactTranscription b a e t) = english b
       \<and> lastUpdate (manageCompactTranscription b a e t) = t
       \<and> arabic (manageCompactTranscription
            (manageCompactTranscription transcriptionBuffer0 (Some [0x61]) None 0)
            (Some [0x62]) None 3000) = [0x61] @ paragraphBreak @ [0x62]
       \<and> arabic (manageCompactTranscription
            (manageCompactTranscription
              (manageCompactTranscription transcriptionBuffer0 (Some [0x61]) None 0)
              (Some [space]) None 2500)
            (Some [0x62]) None 3000) = [0x61] @ [space] @ [0x62]"
proof -
  define b1 where "b1 = manageCompactTranscription transcriptionBuffer0 (Some [0x61]) None 0"
  have t1: "truthyText (Some [0x61])" "truthyText (Some [0x62])" "\<not> truthyText (Some [space])"
    by (simp_all add: truthyText_def trim_single letters_not_white)
       (simp add: trim_def white_space)
  have a1: "arabic b1 = paragraphBreak @ [0x61]"
    by (simp add: b1_def arabic_manageCompact t1 isContinuation_def transcriptionBuffer0_def
        trim_Nil appendCompact_def textOf_def trim_single letters_not_white
        truncateArabic_short paragraphBreak_def)
  have tr1: "trim (arabic b1) = [0x61]"
    by (simp add: a1 trim_def paragraphBreak_def white_space letters_not_white)
  have m1: "lastUpdate b1 = 0" "pauseThreshold b1 = 2000" "maxLength b1 = 300"
    by (simp_all add: b1_def fields_manageCompact transcriptionBuffer0_def)
  have direct: "arabic (manageCompactTranscription b1 (Some [0x62]) None 3000)
      = [0x61] @ paragraphBreak @ [0x62]"
    by (simp add: arabic_manageCompact t1 isContinuation_def m1 tr1 appendCompact_def textOf_def
        trim_single letters_not_white truncateArabic_short paragraphBreak_def)
  define b2 where "b2 = manageCompactTranscription b1 (Some [space]) None 2500"
  have a2: "arabic b2 = arabic b1"
    by (simp add: b2_def arabic_manageCompact t1)
  have m2: "lastUpdate b2 = 2500" "pauseThreshold b2 = 2000" "maxLength b2 = 300"
    by (simp_all add: b2_def fields_manageCompact m1)
  have after: "arabic (manageCompactTranscription b2 (Some [0x62]) None 3000)
      = [0x61] @ [space] @ [0x62]"
    by (simp add: arabic_manageCompact t1 isContinuation_def m2 a2 tr1 appendCompact_def textOf_def
        trim_single letters_not_white truncateArabic_short)
  have "\<not> truthyText a" "\<not> truthyText e"
    using assms by (simp_all add: not_truthy_blank)
  then show ?thesis
    using direct after unfolding b1_def b2_def
    by (simp add: arabic_manageCompact english_manageCompact fields_manageCompact)
qed

text \<open>The theorem at a blank Arabic text and an absent English text.\<close>

theorem blank_update_resets_pause_clock_witness:
  "trim (textOf (Some [space])) = [] \<and> trim (textOf None) = []
   \<and> arabic (manageCompactTranscription
        (transcriptionBuffer0\<lparr>arabic := [0x61]\<rparr>) (Some [space]) None 7) = [0x61]
   \<and> english (manageCompactTranscription
        (transcriptionBuffer0\<lparr>arabic := [0x61]\<rparr>) (Some [space]) None 7) = []
   \<and> lastUpdate (manageCompactTranscription
        (transcriptionBuffer0\<lparr>arabic := [0x61]\<rparr>) (Some [space]) None 7) = 7"
proof -
  have h1: "trim (textOf (Some [space])) = []"
    by (simp add: textOf_def trim_def white_space)
  have h2: "trim (textOf None) = []"
    by (simp add: textOf_def trim_def)
  show ?thesis
    using blank_update_resets_pause_clock [OF h1 h2, of "transcriptionBuffer0\<lparr>arabic := [0x61]\<rparr>" 7]
      h1 h2
    by (simp add: transcriptionBuffer0_def)
qed

section \<open>Continuations in the compact policy\<close>

text \<open>
  Claim C4, as the code has it. When the gap to \<open>lastUpdate\<close> is below the pause
  threshold and the Arabic accumulator, trimmed, is not empty, every text that is not
  blank is joined to its trimmed accumulator with one space, before the length management;
  where the result is within the maximal length, it is the content. This holds for the
  Arabic and for the English accumulator.
\<close>

theorem continuation_appends_with_space:
  assumes "t - lastUpdate b < pauseThreshold b" and "trim (arabic b) \<noteq> []"
  shows "(truthyText a \<longrightarrow>
            arabic (manageCompactTranscription b a e t)
              = truncateArabic (maxLength b) (trim (arabic b) @ [space] @ trim (textOf a))
          \<and> (int (length (trim (arabic b) @ [space] @ trim (textOf a))) \<le> maxLength b \<longrightarrow>
               arabic (manageCompactTranscription b a e t)
                 = trim (arabic b) @ [space] @ trim (textOf a)))
       \<and> (truthyText e \<longrightarrow>
            english (manageCompactTranscription b a e t)
              = truncateEnglish (maxLength b) (trim (english b) @ [space] @ trim (textOf e))
          \<and> (int (length (trim (english b) @ [space] @ trim (textOf e))) \<le> 4 * maxLength b div 5 \<longrightarrow>
               english (manageCompactTranscription b a e t)
                 = trim (english b) @ [space] @ trim (textOf e)))"
proof -
  have c: "isContinuation b t"
    using assms by (simp add: isContinuation_def)
  show ?thesis
    by (simp add: arabic_manageCompact english_manageCompact c appendCompact_def
        truncateArabic_short truncateEnglish_short del: append.simps length_append)
qed

text \<open>The theorem at the second update of a buffer that holds one letter in each language.\<close>

theorem continuation_appends_with_space_witness:
  "1000 - lastUpdate (transcriptionBuffer0\<lparr>arabic := [0x61], english := [0x62]\<rparr>)
     < pauseThreshold (transcriptionBuffer0\<lparr>arabic := [0x61], english := [0x62]\<rparr>)
   \<and> trim (arabic (transcriptionBuffer0\<lparr>arabic := [0x61], english := [0x62]\<rparr>)) \<noteq> []
   \<and> truthyText (Some [0x62]) \<and> truthyText (Some [0x61])
   \<and> arabic (manageCompactTranscription
        (transcriptionBuffer0\<lparr>arabic := [0x61], english := [0x62]\<rparr>)
        (Some [0x62]) (Some [0x61]) 1000) = [0x61, space, 0x62]
   \<and> english (manageCompactTranscription
        (transcriptionBuffer0\<lparr>arabic := [0x61], english := [0x62]\<rparr>)
        (Some [0x62]) (Some [0x61]) 1000) = [0x62, space, 0x61]"
proof -
  define b where "b = transcriptionBuffer0\<lparr>arabic := [0x61], english := [0x62]\<rparr>"
  have m: "lastUpdate b = 0" "pauseThreshold b = 2000" "maxLength b = 300"
    "arabic b = [0x61]" "english b = [0x62]"
    by (simp_all add: b_def transcriptionBuffer0_def)
  have h1: "1000 - lastUpdate b < pauseThreshold b"
    by (simp add: m)
  have h2: "trim (arabic b) \<noteq> []"
    by (simp add: m trim_single letters_not_white)
  have tt: "truthyText (Some [0x62])" "truthyText (Some [0x61])"
    by (simp_all add: truthyText_def trim_single letters_not_white)
  show ?thesis
    using continuation_appends_with_space [OF h1 h2, of "Some [0x62]" "Some [0x61]"] h1 h2 tt
    unfolding b_def [symmetric]
    by (simp add: m textOf_def trim_single letters_not_white truncateArabic_short
        truncateEnglish_short)
qed

text \<open>
  Claim C4 fails as it is stated: the first update of an empty buffer, at time 1000 and so
  with a gap below the threshold, is joined with a paragraph break in both languages; and
  while the Arabic accumulator is empty, an English text that comes 1000 ms after another
  one is joined to it with a paragraph break.
\<close>

theorem gap_below_threshold_counterexample:
  "1000 - lastUpdate transcriptionBuffer0 < pauseThreshold transcriptionBuffer0
   \<and> arabic (manageCompactTranscription transcriptionBuffer0 (Some [0x61]) (Some [0x62]) 1000)
       = paragraphBreak @ [0x61]
   \<and> english (manageCompactTranscription transcriptionBuffer0 (Some [0x61]) (Some [0x62]) 1000)
       = paragraphBreak @ [0x62]
   \<and> 1000 - lastUpdate (manageCompactTranscription transcriptionBuffer0 None (Some [0x61]) 0)
       < pauseThreshold (manageCompactTranscription transcriptionBuffer0 None (Some [0x61]) 0)
   \<and> english (manageCompactTranscription
         (manageCompactTranscription transcriptionBuffer0 None (Some [0x61]) 0)
         None (Some [0x62]) 1000)
       = [0x61] @ paragraphBreak @ [0x62]"
proof -
  have t1: "truthyText (Some [0x61])" "truthyText (Some [0x62])" "\<not> truthyText None"
    by (simp_all add: truthyText_def trim_single letters_not_white)
  have first: "arabic (manageCompactTranscription transcriptionBuffer0 (Some [0x61]) (Some [0x62]) 1000)
       = paragraphBreak @ [0x61]
     \<and> english (manageCompactTranscription transcriptionBuffer0 (Some [0x61]) (Some [0x62]) 1000)
       = paragraphBreak @ [0x62]"
    by (simp add: arabic_manageCompact english_manageCompact t1 isContinuation_def
        transcriptionBuffer0_def trim_Nil appendCompact_def textOf_def trim_single
        letters_not_white truncateArabic_short truncateEnglish_short paragraphBreak_def)
  define b1 where "b1 = manageCompactTranscription transcriptionBuffer0 None (Some [0x61]) 0"
  have m1: "lastUpdate b1 = 0" "pauseThreshold b1 = 2000" "maxLength b1 = 300" "arabic b1 = []"
    by (simp_all add: b1_def fields_manageCompact arabic_manageCompact t1 transcriptionBuffer0_def)
  have e1: "english b1 = paragraphBreak @ [0x61]"
    by (simp add: b1_def english_manageCompact t1 isContinuation_def
        transcriptionBuffer0_def trim_Nil appendCompact_def textOf_def trim_single
        letters_not_white truncateEnglish_short paragraphBreak_def)
  have tr1: "trim (english b1) = [0x61]"
    by (simp add: e1 trim_paragraphBreak_prefix trim_single letters_not_white)
  have second: "english (manageCompactTranscription b1 None (Some [0x62]) 1000)
       = [0x61] @ paragraphBreak @ [0x62]"
    by (simp add: english_manageCompact t1 isContinuation_def m1 trim_Nil tr1 appendCompact_def
        textOf_def trim_single letters_not_white truncateEnglish_short paragraphBreak_def)
  show ?thesis
    using first second unfolding b1_def [symmetric]
    by (simp add: m1) (simp add: transcriptionBuffer0_def)
qed

section \<open>Facts about trimmed strings\<close>

lemma last_dropWhile: "dropWhile P xs \<noteq> [] \<Longrightarrow> last (dropWhile P xs) = last xs"
  by (induction xs) (auto split: if_splits)

lemma trim_ends:
  assumes "trim s \<noteq> []"
  shows "\<not> isWhiteSpace (hd (trim s))" and "\<not> isWhiteSpace (last (trim s))"
proof -
  define u where "u = dropWhile isWhiteSpace s"
  define v where "v = dropWhile isWhiteSpace (rev u)"
  have t: "trim s = rev v" by (simp add: trim_def u_def v_def)
  with assms have v: "v \<noteq> []" by simp
  then have u: "u \<noteq> []" by (auto simp: v_def)
  have "\<not> isWhiteSpace (hd v)"
    using v unfolding v_def by (rule hd_dropWhile)
  then show "\<not> isWhiteSpace (last (trim s))"
    using v by (simp add: t last_rev)
  have "last v = last (rev u)"
    using v unfolding v_def by (rule last_dropWhile)
  then have "last v = hd u"
    using u by (simp add: last_rev)
  moreover have "\<not> isWhiteSpace (hd u)"
    using u unfolding u_def by (rule hd_dropWhile)
  ultimately show "\<not> isWhiteSpace (hd (trim s))"
    using v by (simp add: t hd_rev)
qed

lemma trim_fixed_ends:
  assumes "trim s = s" and "s \<noteq> []"
  shows "\<not> isWhiteSpace (hd s)" and "\<not> isWhiteSpace (last s)"
  using trim_ends [of s] assms by simp_all

lemma trim_trim: "trim (trim s) = trim s"
proof (cases "trim s = []")
  case True
  then show ?thesis by (simp add: trim_Nil)
next
  case False
  then show ?thesis by (simp add: trim_clean trim_ends)
qed

lemma sliceLast_one: "s \<noteq> [] \<Longrightarrow> sliceLast s (Suc 0) = [last s]"
  by (cases s rule: rev_cases) (simp_all add: sliceLast_def)

lemma not_white_not_separator:
  "\<not> isWhiteSpace c \<Longrightarrow> c \<noteq> space \<and> c \<noteq> newline"
  using white_space by auto

section \<open>The cumulative policy on trimmed content\<close>

lemma arabic_manageCumulative:
  "arabic (manageCumulativeTranscription b a e) =
     (if truthyText a then keepRecentPrayer (appendCumulative (arabic b) (textOf a))
      else arabic b)"
  by (simp add: manageCumulativeTranscription_def Let_def)

lemma english_manageCumulative:
  "english (manageCumulativeTranscription b a e) =
     (if truthyText e then keepRecentPrayer (appendCumulative (english b) (textOf e))
      else english b)"
  by (simp add: manageCumulativeTranscription_def Let_def)

lemma appendCumulative_trimmed:
  assumes "trim content = content"
  shows "appendCumulative content text =
     content @ (if content = [] then [] else [space]) @ trim text"
proof (cases "content = []")
  case True
  then show ?thesis by (simp add: appendCumulative_def trim_Nil)
next
  case False
  have "last content \<noteq> space \<and> last content \<noteq> newline"
    using trim_fixed_ends(2) [OF assms False] by (rule not_white_not_separator)
  then show ?thesis
    using False assms by (simp add: appendCumulative_def Let_def sliceLast_one)
qed

lemma truthy_trim: "truthyText a \<Longrightarrow> trim (textOf a) \<noteq> []"
  by (cases a) (simp_all add: truthyText_def textOf_def)

lemma ellipsis_ends: "hd ellipsis = 0x2E" "last ellipsis = 0x2E" "ellipsis \<noteq> []"
  by (simp_all add: ellipsis_def)

lemma dot_not_white: "\<not> isWhiteSpace 0x2E"
  by (simp add: isWhiteSpace_def)

lemma keepRecentPrayer_trimmed:
  assumes "s \<noteq> []" and "\<not> isWhiteSpace (hd s)" and "\<not> isWhiteSpace (last s)"
  shows "trim (keepRecentPrayer s) = keepRecentPrayer s"
proof (cases "length s > maxPrayerLength")
  case False
  then show ?thesis using assms by (simp add: keepRecentPrayer_def trim_clean)
next
  case True
  then have "length s - 1500 < length s"
    by (simp add: maxPrayerLength_def)
  then have ne: "sliceLast s 1500 \<noteq> []" and "last (sliceLast s 1500) = last s"
    by (simp_all add: sliceLast_def)
  then have "trim (ellipsis @ sliceLast s 1500) = ellipsis @ sliceLast s 1500"
    using assms(3) by (intro trim_clean) (simp_all add: ellipsis_ends dot_not_white)
  with True show ?thesis by (simp add: keepRecentPrayer_def)
qed

lemma appended_trimmed:
  assumes "trim content = content" and "truthyText a"
  shows "trim (keepRecentPrayer (appendCumulative content (textOf a)))
     = keepRecentPrayer (appendCumulative content (textOf a))"
proof -
  define t where "t = trim (textOf a)"
  have t: "t \<noteq> []" "\<not> isWhiteSpace (hd t)" "\<not> isWhiteSpace (last t)"
    using truthy_trim [OF assms(2)] trim_ends [of "textOf a"] by (simp_all add: t_def)
  have eq: "appendCumulative content (textOf a)
      = content @ (if content = [] then [] else [space]) @ t"
    using assms(1) by (simp add: appendCumulative_trimmed t_def)
  have "\<not> isWhiteSpace (hd (content @ (if content = [] then [] else [space]) @ t))"
    using t trim_fixed_ends(1) [OF assms(1)] by (cases "content = []") simp_all
  moreover have "\<not> isWhiteSpace (last (content @ (if content = [] then [] else [space]) @ t))"
    using t by simp
  ultimately show ?thesis
    unfolding eq using t by (intro keepRecentPrayer_trimmed) simp_all
qed

lemma cumulativeStep_trimmed:
  assumes "trim (arabic b) = arabic b" and "trim (english b) = english b"
  shows "trim (arabic (cumulativeStep b ev)) = arabic (cumulativeStep b ev)
       \<and> trim (english (cumulativeStep b ev)) = english (cumulativeStep b ev)"
proof (cases ev)
  case (Update a e)
  then show ?thesis
    using assms by (simp add: arabic_manageCumulative english_manageCumulative appended_trimmed)
next
  case Clear
  then show ?thesis by (simp add: clearTranscriptions_def trim_Nil)
qed

lemma runCumulative_snoc:
  "runCumulative (events @ [ev]) = cumulativeStep (runCumulative events) ev"
  by (simp add: runCumulative_def)

lemma runCumulative_trimmed:
  "trim (arabic (runCumulative events)) = arabic (runCumulative events)
   \<and> trim (english (runCumulative events)) = english (runCumulative events)"
proof (induction events rule: rev_induct)
  case Nil
  then show ?case by (simp add: runCumulative_def transcriptionBuffer0_def trim_Nil)
next
  case (snoc ev events)
  then show ?case
    unfolding runCumulative_snoc by (intro cumulativeStep_trimmed) simp_all
qed

section \<open>Paragraph breaks in a content\<close>

lemma hasParagraphBreak_Cons:
  "hasParagraphBreak (a # s) \<longleftrightarrow>
     (s \<noteq> [] \<and> a = newline \<and> hd s = newline) \<or> hasParagraphBreak s"
  by (cases s) auto

lemma hasParagraphBreak_append:
  "hasParagraphBreak (xs @ ys) \<longleftrightarrow>
     hasParagraphBreak xs \<or> hasParagraphBreak ys
     \<or> (xs \<noteq> [] \<and> ys \<noteq> [] \<and> last xs = newline \<and> hd ys = newline)"
proof (induction xs)
  case Nil
  then show ?case by simp
next
  case (Cons a xs)
  show ?case
  proof (cases "xs = []")
    case True
    then show ?thesis by (auto simp: hasParagraphBreak_Cons)
  next
    case False
    then have "hd (xs @ ys) = hd xs" by simp
    with False Cons.IH show ?thesis
      by (simp add: hasParagraphBreak_Cons del: hasParagraphBreak.simps)
  qed
qed

lemma hasParagraphBreak_drop: "hasParagraphBreak (drop n s) \<Longrightarrow> hasParagraphBreak s"
  using hasParagraphBreak_append [of "take n s" "drop n s"] by simp

lemma trim_decomposition: "\<exists>ps ss. s = ps @ trim s @ ss"
proof -
  define u where "u = dropWhile isWhiteSpace s"
  have "rev (takeWhile isWhiteSpace (rev u) @ dropWhile isWhiteSpace (rev u)) = rev (rev u)"
    by (simp only: takeWhile_dropWhile_id)
  then have "rev (dropWhile isWhiteSpace (rev u)) @ rev (takeWhile isWhiteSpace (rev u)) = u"
    by (simp only: rev_append rev_rev_ident)
  then have "u = trim s @ rev (takeWhile isWhiteSpace (rev u))"
    by (simp add: trim_def u_def)
  moreover have "s = takeWhile isWhiteSpace s @ u"
    by (simp add: u_def)
  ultimately have "s = takeWhile isWhiteSpace s @ trim s @ rev (takeWhile isWhiteSpace (rev u))"
    by simp
  then show ?thesis by blast
qed

lemma hasParagraphBreak_trim: "hasParagraphBreak (trim s) \<Longrightarrow> hasParagraphBreak s"
proof -
  assume h: "hasParagraphBreak (trim s)"
  obtain ps ss where s: "s = ps @ trim s @ ss"
    using trim_decomposition by blast
  have "hasParagraphBreak (ps @ trim s @ ss)"
    using h by (simp add: hasParagraphBreak_append)
  with s show ?thesis by simp
qed

lemma space_not_newline: "space \<noteq> newline"
  by (simp add: space_def newline_def)

lemma ellipsis_no_break: "\<not> hasParagraphBreak ellipsis" "last ellipsis \<noteq> newline"
  by (simp_all add: ellipsis_def newline_def)

lemma keepRecentPrayer_no_break:
  "\<not> hasParagraphBreak s \<Longrightarrow> \<not> hasParagraphBreak (keepRecentPrayer s)"
  using hasParagraphBreak_drop [of "length s - 1500" s]
  by (auto simp: keepRecentPrayer_def sliceLast_def hasParagraphBreak_append ellipsis_no_break)

lemma appendCumulative_no_break:
  assumes "trim content = content"
    and "\<not> hasParagraphBreak content" and "\<not> hasParagraphBreak text"
  shows "\<not> hasParagraphBreak (appendCumulative content text)"
proof -
  have "\<not> hasParagraphBreak (trim text)"
    using assms(3) hasParagraphBreak_trim by blast
  then show ?thesis
    using assms(2) space_not_newline
    by (auto simp: appendCumulative_trimmed [OF assms(1)] hasParagraphBreak_append)
qed

lemma cumulativeStep_no_break:
  assumes "trim (arabic b) = arabic b" and "trim (english b) = english b"
    and "\<not> hasParagraphBreak (arabic b)" and "\<not> hasParagraphBreak (english b)"
    and "\<not> eventHasParagraphBreak ev"
  shows "\<not> hasParagraphBreak (arabic (cumulativeStep b ev))
       \<and> \<not> hasParagraphBreak (english (cumulativeStep b ev))"
proof (cases ev)
  case (Update a e)
  then show ?thesis
    using assms
    by (simp add: arabic_manageCumulative english_manageCumulative keepRecentPrayer_no_break
        appendCumulative_no_break)
next
  case Clear
  then show ?thesis by (simp add: clearTranscriptions_def)
qed

lemma runCumulative_no_break:
  "(\<And>ev. ev \<in> set events \<Longrightarrow> \<not> eventHasParagraphBreak ev)
   \<Longrightarrow> \<not> hasParagraphBreak (arabic (runCumulative events))
     \<and> \<not> hasParagraphBreak (english (runCumulative events))"
proof (induction events rule: rev_induct)
  case Nil
  then show ?case by (simp add: runCumulative_def transcriptionBuffer0_def)
next
  case (snoc ev events)
  have "\<not> hasParagraphBreak (arabic (runCumulative events))
     \<and> \<not> hasParagraphBreak (english (runCumulative events))"
    using snoc by simp
  moreover have "\<not> eventHasParagraphBreak ev"
    using snoc.prems by simp
  ultimately show ?case
    unfolding runCumulative_snoc
    using runCumulative_trimmed [of events] by (intro cumulativeStep_no_break) simp_all
qed

lemma keepRecentPrayer_short: "length s \<le> 2000 \<Longrightarrow> keepRecentPrayer s = s"
  by (simp add: keepRecentPrayer_def maxPrayerLength_def)

lemma keepRecentPrayer_long:
  assumes "2000 < length s"
  shows "keepRecentPrayer s = ellipsis @ sliceLast s 1500"
    and "length (keepRecentPrayer s) = 1503"
  using assms by (simp_all add: keepRecentPrayer_def maxPrayerLength_def sliceLast_def length_ellipsis)

lemma length_sliceLast: "n \<le> length s \<Longrightarrow> length (sliceLast s n) = n"
  by (simp add: sliceLast_def)

lemma runCumulative_single:
  "runCumulative [ev] = cumulativeStep transcriptionBuffer0 ev"
  by (simp add: runCumulative_def)

section \<open>The separators of the cumulative policy\<close>

text \<open>
  Claim C7. After every sequence of updates and resets of the cumulative policy, an update
  whose text is not blank makes the content the old content, then a single space if the
  old content is not empty, then the trimmed text, cut by the length management; the
  old content, if not empty, does not end with a space or a newline, so the space is
  never a second one. This holds for both accumulators, and no timestamp enters the
  policy. No paragraph break is inserted: if no text of the sequence holds a paragraph
  break, the contents hold none.
\<close>

theorem cumulative_never_breaks_paragraph:
  "(truthyText a \<longrightarrow>
      arabic (manageCumulativeTranscription (runCumulative events) a e)
        = keepRecentPrayer (arabic (runCumulative events)
            @ (if arabic (runCumulative events) = [] then [] else [space]) @ trim (textOf a))
      \<and> (arabic (runCumulative events) \<noteq> [] \<longrightarrow>
            last (arabic (runCumulative events)) \<noteq> space
          \<and> last (arabic (runCumulative events)) \<noteq> newline))
   \<and> (truthyText e \<longrightarrow>
      english (manageCumulativeTranscription (runCumulative events) a e)
        = keepRecentPrayer (english (runCumulative events)
            @ (if english (runCumulative events) = [] then [] else [space]) @ trim (textOf e))
      \<and> (english (runCumulative events) \<noteq> [] \<longrightarrow>
            last (english (runCumulative events)) \<noteq> space
          \<and> last (english (runCumulative events)) \<noteq> newline))
   \<and> ((\<forall>ev \<in> set events. \<not> eventHasParagraphBreak ev) \<longrightarrow>
        \<not> hasParagraphBreak (arabic (runCumulative events))
      \<and> \<not> hasParagraphBreak (english (runCumulative events)))"
proof -
  define b where "b = runCumulative events"
  have tr: "trim (arabic b) = arabic b" "trim (english b) = english b"
    using runCumulative_trimmed [of events] by (simp_all add: b_def)
  have la: "last (arabic b) \<noteq> space \<and> last (arabic b) \<noteq> newline" if "arabic b \<noteq> []"
    using trim_fixed_ends(2) [OF tr(1) that] by (rule not_white_not_separator)
  have le: "last (english b) \<noteq> space \<and> last (english b) \<noteq> newline" if "english b \<noteq> []"
    using trim_fixed_ends(2) [OF tr(2) that] by (rule not_white_not_separator)
  have nb: "\<not> hasParagraphBreak (arabic b) \<and> \<not> hasParagraphBreak (english b)"
    if "\<forall>ev \<in> set events. \<not> eventHasParagraphBreak ev"
    using runCumulative_no_break [of events] that by (simp add: b_def)
  show ?thesis
    unfolding b_def [symmetric]
    using la le nb
    by (simp add: arabic_manageCumulative english_manageCumulative
        appendCumulative_trimmed [OF tr(1)] appendCumulative_trimmed [OF tr(2)])
qed

text \<open>The theorem after one update with a letter in each language.\<close>

theorem cumulative_never_breaks_paragraph_witness:
  "truthyText (Some [0x62]) \<and> truthyText (Some [0x61])
   \<and> arabic (runCumulative [Update (Some [0x61]) (Some [0x62])]) = [0x61]
   \<and> english (runCumulative [Update (Some [0x61]) (Some [0x62])]) = [0x62]
   \<and> arabic (manageCumulativeTranscription
        (runCumulative [Update (Some [0x61]) (Some [0x62])]) (Some [0x62]) (Some [0x61]))
      = [0x61, space, 0x62]
   \<and> english (manageCumulativeTranscription
        (runCumulative [Update (Some [0x61]) (Some [0x62])]) (Some [0x62]) (Some [0x61]))
      = [0x62, space, 0x61]
   \<and> \<not> eventHasParagraphBreak (Update (Some [0x61]) (Some [0x62]))
   \<and> \<not> hasParagraphBreak (arabic (runCumulative [Update (Some [0x61]) (Some [0x62])]))
   \<and> \<not> hasParagraphBreak (english (runCumulative [Update (Some [0x61]) (Some [0x62])]))"
proof -
  define b where "b = runCumulative [Update (Some [0x61]) (Some [0x62])]"
  have tt: "truthyText (Some [0x62])" "truthyText (Some [0x61])"
    by (simp_all add: truthyText_def trim_single letters_not_white)
  have c: "arabic b = [0x61]" "english b = [0x62]"
    by (simp_all add: b_def runCumulative_single arabic_manageCumulative english_manageCumulative
        tt transcriptionBuffer0_def appendCumulative_def trim_Nil textOf_def trim_single
        letters_not_white keepRecentPrayer_short)
  have ev: "\<not> eventHasParagraphBreak (Update (Some [0x61]) (Some [0x62]))"
    by (simp add: textOf_def)
  show ?thesis
    using cumulative_never_breaks_paragraph
      [of "Some [0x62]" "[Update (Some [0x61]) (Some [0x62])]" "Some [0x61]"] tt ev
    unfolding b_def [symmetric]
    by (simp add: c textOf_def trim_single letters_not_white keepRecentPrayer_short)
qed

section \<open>Truncation in the cumulative policy\<close>

text \<open>
  Claim C6. After every sequence of updates and resets of the cumulative policy, when the
  accumulator holds 1900 characters and the update brings a text of 200 characters
  (trimmed), the content becomes the ellipsis followed by the last 1500 characters of old
  content + space + text, that is this concatenation without its first 601 characters,
  and has length 1503. In general, for any buffer, when the content after the append is
  longer than 2000 it becomes the ellipsis followed by its last 1500 characters. This
  holds for both accumulators.
\<close>

theorem cumulative_truncation_example:
  "(length (arabic (runCumulative events)) = 1900 \<and> length (trim t) = 200 \<longrightarrow>
      arabic (manageCumulativeTranscription (runCumulative events) (Some t) e)
        = ellipsis @ drop 601 (arabic (runCumulative events) @ [space] @ trim t)
      \<and> length (arabic (manageCumulativeTranscription (runCumulative events) (Some t) e)) = 1503)
   \<and> (length (english (runCumulative events)) = 1900 \<and> length (trim t) = 200 \<longrightarrow>
      english (manageCumulativeTranscription (runCumulative events) a (Some t))
        = ellipsis @ drop 601 (english (runCumulative events) @ [space] @ trim t)
      \<and> length (english (manageCumulativeTranscription (runCumulative events) a (Some t))) = 1503)
   \<and> (truthyText a \<and> 2000 < length (appendCumulative (arabic b) (textOf a)) \<longrightarrow>
      arabic (manageCumulativeTranscription b a e)
        = ellipsis @ sliceLast (appendCumulative (arabic b) (textOf a)) 1500
      \<and> length (arabic (manageCumulativeTranscription b a e)) = 1503)
   \<and> (truthyText e \<and> 2000 < length (appendCumulative (english b) (textOf e)) \<longrightarrow>
      english (manageCumulativeTranscription b a e)
        = ellipsis @ sliceLast (appendCumulative (english b) (textOf e)) 1500
      \<and> length (english (manageCumulativeTranscription b a e)) = 1503)"
proof -
  have example: "keepRecentPrayer (appendCumulative content t)
        = ellipsis @ drop 601 (content @ [space] @ trim t)
      \<and> length (keepRecentPrayer (appendCumulative content t)) = 1503"
    if "trim content = content" and "length content = 1900" and "length (trim t) = 200"
    for content
  proof -
    have ne: "content \<noteq> []" using that(2) by auto
    have eq: "appendCumulative content t = content @ [space] @ trim t"
      using that(1) ne by (simp add: appendCumulative_trimmed)
    have len: "length (content @ [space] @ trim t) = 2101"
      using that by simp
    then have long: "2000 < length (content @ [space] @ trim t)" by simp
    show ?thesis
      unfolding eq using keepRecentPrayer_long [OF long] len
      by (simp add: sliceLast_def del: length_append)
  qed
  have tt: "truthyText (Some t)" if "length (trim t) = 200"
    using that by (auto simp: truthyText_def trim_Nil)
  show ?thesis
  proof (intro conjI impI)
    assume h: "length (arabic (runCumulative events)) = 1900 \<and> length (trim t) = 200"
    have "arabic (manageCumulativeTranscription (runCumulative events) (Some t) e)
        = keepRecentPrayer (appendCumulative (arabic (runCumulative events)) t)"
      using h tt by (simp add: arabic_manageCumulative textOf_def)
    then show "arabic (manageCumulativeTranscription (runCumulative events) (Some t) e)
        = ellipsis @ drop 601 (arabic (runCumulative events) @ [space] @ trim t)"
      and "length (arabic (manageCumulativeTranscription (runCumulative events) (Some t) e)) = 1503"
      using example [of "arabic (runCumulative events)"] runCumulative_trimmed [of events] h
      by (simp_all add: length_ellipsis)
  next
    assume h: "length (english (runCumulative events)) = 1900 \<and> length (trim t) = 200"
    have "english (manageCumulativeTranscription (runCumulative events) a (Some t))
        = keepRecentPrayer (appendCumulative (english (runCumulative events)) t)"
      using h tt by (simp add: english_manageCumulative textOf_def)
    then show "english (manageCumulativeTranscription (runCumulative events) a (Some t))
        = ellipsis @ drop 601 (english (runCumulative events) @ [space] @ trim t)"
      and "length (english (manageCumulativeTranscription (runCumulative events) a (Some t))) = 1503"
      using example [of "english (runCumulative events)"] runCumulative_trimmed [of events] h
      by (simp_all add: length_ellipsis)
  next
    assume h: "truthyText a \<and> 2000 < length (appendCumulative (arabic b) (textOf a))"
    then show "arabic (manageCumulativeTranscription b a e)
        = ellipsis @ sliceLast (appendCumulative (arabic b) (textOf a)) 1500"
      and "length (arabic (manageCumulativeTranscription b a e)) = 1503"
      by (simp_all add: arabic_manageCumulative keepRecentPrayer_long length_ellipsis
          length_sliceLast)
  next
    assume h: "truthyText e \<and> 2000 < length (appendCumulative (english b) (textOf e))"
    then show "english (manageCumulativeTranscription b a e)
        = ellipsis @ sliceLast (appendCumulative (english b) (textOf e)) 1500"
      and "length (english (manageCumulativeTranscription b a e)) = 1503"
      by (simp_all add: english_manageCumulative keepRecentPrayer_long length_ellipsis
          length_sliceLast)
  qed
qed

text \<open>The theorem at a buffer of 1900 letters that receives 200 letters.\<close>

theorem cumulative_truncation_example_witness:
  "length (arabic (runCumulative [Update (Some (replicate 1900 0x61)) None])) = 1900
   \<and> length (trim (replicate 200 (0x62 :: jschar))) = 200
   \<and> arabic (manageCumulativeTranscription
        (runCumulative [Update (Some (replicate 1900 0x61)) None]) (Some (replicate 200 0x62)) None)
      = ellipsis @ replicate 1299 0x61 @ [space] @ replicate 200 0x62
   \<and> length (arabic (manageCumulativeTranscription
        (runCumulative [Update (Some (replicate 1900 0x61)) None]) (Some (replicate 200 0x62)) None))
      = 1503"
proof -
  define b where "b = runCumulative [Update (Some (replicate 1900 0x61)) None]"
  have c: "arabic b = replicate 1900 0x61"
    by (simp add: b_def runCumulative_single arabic_manageCumulative truthy_replicate
        letters_not_white transcriptionBuffer0_def appendCumulative_def trim_Nil textOf_def
        trim_replicate keepRecentPrayer_short)
  have h1: "length (arabic b) = 1900"
    by (simp add: c)
  have h2: "length (trim (replicate 200 (0x62 :: jschar))) = 200"
    by (simp add: trim_replicate letters_not_white)
  show ?thesis
    using cumulative_truncation_example [of "[Update (Some (replicate 1900 0x61)) None]"
        "replicate 200 0x62" None None transcriptionBuffer0] h1 h2
    unfolding b_def [symmetric]
    by (simp add: c trim_replicate letters_not_white length_ellipsis truthyText_def)
qed

section \<open>The pipeline of the server\<close>

text \<open>
  Claim C3, as the code has it. When the transcript that the recognition returned is the
  empty string, no translation is called and nothing is emitted. The translation is called
  exactly when the recognition succeeded with a transcript that is not the empty string,
  blank or not; a transcription update is emitted exactly when moreover the translation
  succeeded, and it carries that transcript and the translation. A batch emits at most
  one event.
\<close>

theorem update_iff_nonempty_transcript:
  "(joinLines results = [] \<longrightarrow>
      translateCalls (processAudioChunk buffers (Inr results) translated) = []
    \<and> emits (processAudioChunk buffers (Inr results) translated) = [])
   \<and> (translateCalls (processAudioChunk buffers recognized translated) \<noteq> []
        \<longleftrightarrow> (\<exists>rs. recognized = Inr rs \<and> joinLines rs \<noteq> []))
   \<and> (TranscriptionUpdate transcript translation
          \<in> set (emits (processAudioChunk buffers recognized translated))
        \<longleftrightarrow> (\<exists>rs. recognized = Inr rs \<and> joinLines rs \<noteq> [] \<and> transcript = joinLines rs
              \<and> translated = Inr translation))
   \<and> length (emits (processAudioChunk buffers recognized translated)) \<le> 1"
  by (auto simp: processAudioChunk_def Let_def split: sum.splits)

text \<open>The theorem at a recognition that returns one result with an empty transcript.\<close>

theorem update_iff_nonempty_transcript_witness:
  "joinLines [[]] = []
   \<and> translateCalls (processAudioChunk [[0x01], [0x02]] (Inr [[]]) (Inr [0x61])) = []
   \<and> emits (processAudioChunk [[0x01], [0x02]] (Inr [[]]) (Inr [0x61])) = []"
  using update_iff_nonempty_transcript
    [of "[[]]" "[[0x01], [0x02]]" "Inr [0x61]" "Inr [[]]" "[]" "[]"]
  by simp

text \<open>
  Claim C3 fails for a blank transcript: when the recognition returns two results with
  empty transcripts, the transcript is a single newline, which is blank and not empty; the
  translation is called with it and a transcription update is emitted.
\<close>

theorem blank_transcript_counterexample:
  "trim (joinLines [[], []]) = []
   \<and> translateCalls (processAudioChunk [[0x01], [0x02]] (Inr [[], []]) (Inr []))
       = [[newline]]
   \<and> emits (processAudioChunk [[0x01], [0x02]] (Inr [[], []]) (Inr []))
       = [TranscriptionUpdate [newline] []]"
  by (simp add: processAudioChunk_def Let_def trim_def white_space)

section \<open>The audio buffers of the server\<close>

text \<open>
  Claim C8, as the code has it. The server has one list of pending fragments for all
  connections: the fragment of any client is appended to it, a start, a stop or a
  disconnection of any client empties it, and the chunk that brings it to two fragments or
  more submits all of it for the client that sent that chunk.
\<close>

theorem pending_list_is_shared:
  "audioBuffers (handle s (AudioChunk sid audioData)) = audioBuffers s @ [audioData]
   \<and> audioBuffers (handle s (StartRecording sid)) = []
   \<and> audioBuffers (handle s (StopRecording sid)) = []
   \<and> audioBuffers (handle s (Disconnect sid)) = []
   \<and> submitted (handle s (AudioChunk sid audioData))
       = (if length (audioBuffers s) + 1 \<ge> 2
          then submitted s @ [(sid, audioBuffers s @ [audioData])] else submitted s)"
  by (simp add: Let_def)

text \<open>
  Claim C8 fails: the fragment that client 1 sent is pending, and the start or the stop of
  client 2 discards it; and a fragment of client 2 after it submits both fragments as one
  batch for client 2.
\<close>

theorem sessions_not_independent_counterexample:
  "audioBuffers (runServer [AudioChunk 1 [0x01]]) = [[0x01]]
   \<and> audioBuffers (runServer [AudioChunk 1 [0x01], StartRecording 2]) = []
   \<and> audioBuffers (runServer [AudioChunk 1 [0x01], StopRecording 2]) = []
   \<and> submitted (runServer [AudioChunk 1 [0x01], AudioChunk 2 [0x02]])
       = [(2, [[0x01], [0x02]])]"
  by (simp add: runServer_def server0_def Let_def)

text \<open>
  Claim C2 on three chunks of one client, the third received while the call for the
  first two is under way. The second chunk submits the first two fragments and they stay
  in the list; the third chunk submits a batch of three fragments, the first two for the
  second time. When then the first call is done the list is emptied; a fourth chunk is
  pending alone, and the end of the second call discards it: it is never submitted.
\<close>

theorem overlapping_batches:
  "submitted (runServer [AudioChunk 1 [0x01], AudioChunk 1 [0x02]]) = [(1, [[0x01], [0x02]])]
   \<and> audioBuffers (runServer [AudioChunk 1 [0x01], AudioChunk 1 [0x02]]) = [[0x01], [0x02]]
   \<and> submitted (runServer [AudioChunk 1 [0x01], AudioChunk 1 [0x02], AudioChunk 1 [0x03]])
       = [(1, [[0x01], [0x02]]), (1, [[0x01], [0x02], [0x03]])]
   \<and> submitted (runServer [AudioChunk 1 [0x01], AudioChunk 1 [0x02], AudioChunk 1 [0x03],
         PipelineDone 0 (Inr []) (Inr []), AudioChunk 1 [0x04],
         PipelineDone 0 (Inr []) (Inr [])])
       = [(1, [[0x01], [0x02]]), (1, [[0x01], [0x02], [0x03]])]
   \<and> audioBuffers (runServer [AudioChunk 1 [0x01], AudioChunk 1 [0x02], AudioChunk 1 [0x03],
         PipelineDone 0 (Inr []) (Inr []), AudioChunk 1 [0x04],
         PipelineDone 0 (Inr []) (Inr [])])
       = []"
  by (simp add: runServer_def server0_def Let_def processAudioChunk_def)

section \<open>An error event on the client\<close>

lemma showStatus_fields:
  "statusText (showStatus message type c) = message"
  "statusClass (showStatus message type c) = ''status-message '' @ type"
  "statusShown (showStatus message type c)"
  "mediaRecorder (showStatus message type c) = mediaRecorder c"
  "isRecording (showStatus message type c) = isRecording c"
  "audioStream (showStatus message type c) = audioStream c"
  "chunks (showStatus message type c) = chunks c"
  "browserCalls (showStatus message type c) = browserCalls c"
  by (simp_all add: showStatus_def)

lemma stopRecording_status:
  "statusText (stopRecording c) = statusText c"
  "statusClass (stopRecording c) = statusClass c"
  "statusShown (stopRecording c) = statusShown c"
  "isRecording (stopRecording c) = isRecording c"
  by (simp_all add: stopRecording_def Let_def)

lemma stopRecording_running:
  assumes "mediaRecorder c" and "isRecording c"
  shows "\<not> mediaRecorder (stopRecording c)"
    and "\<not> audioStream (stopRecording c)"
    and "chunks (stopRecording c) = []"
    and "browserCalls (stopRecording c)
         = browserCalls c @ [RecorderStop] @ (if audioStream c then [TracksStop] else [])"
  using assms by (simp_all add: stopRecording_def Let_def)

lemma stopRecording_idle:
  "\<not> (mediaRecorder c \<and> isRecording c) \<Longrightarrow> stopRecording c = c"
  unfolding stopRecording_def by (simp only: if_False)

lemma updateButtonState_idle:
  "buttonText (updateButtonState ''idle'' c) = StartRecordingLabel"
  "\<not> recordingClass (updateButtonState ''idle'' c)"
  "\<not> stoppedClass (updateButtonState ''idle'' c)"
  "statusText (updateButtonState ''idle'' c) = statusText c"
  "statusClass (updateButtonState ''idle'' c) = statusClass c"
  "statusShown (updateButtonState ''idle'' c) = statusShown c"
  "isRecording (updateButtonState ''idle'' c) = isRecording c"
  "mediaRecorder (updateButtonState ''idle'' c) = mediaRecorder c"
  "audioStream (updateButtonState ''idle'' c) = audioStream c"
  "chunks (updateButtonState ''idle'' c) = chunks c"
  "browserCalls (updateButtonState ''idle'' c) = browserCalls c"
  by (simp_all add: updateButtonState_def Let_def)

lemma startedClient_fields:
  "mediaRecorder startedClient" "audioStream startedClient" "\<not> isRecording startedClient"
  "chunks startedClient = []" "browserCalls startedClient = []"
  by (simp_all add: startedClient_def)

lemma recordingClient_fields:
  "mediaRecorder recordingClient" "audioStream recordingClient" "isRecording recordingClient"
  "chunks recordingClient = []" "browserCalls recordingClient = []"
  by (simp_all add: recordingClient_def recorderOnStart_def showStatus_fields
      startedClient_fields)

text \<open>
  Claim C10, as the code has it. On every error event from the server the client shows
  the error in the status line, calls \<open>stopRecording\<close> and resets the record button to its
  idle look; \<open>isRecording\<close> is left as it was. \<open>stopRecording\<close> stops the capture only when
  the recorder is set and \<open>isRecording\<close> holds: then the recorder is stopped, the tracks
  of the stream are stopped, and the recorder, the stream and the collected chunks are
  dropped. In every other state the recorder, the stream and the chunks stay as they
  were and nothing is stopped.
\<close>

theorem server_error_stops_guarded_recording:
  "buttonText (onServerError error c) = StartRecordingLabel
   \<and> \<not> recordingClass (onServerError error c)
   \<and> \<not> stoppedClass (onServerError error c)
   \<and> statusText (onServerError error c) = js ''Server error: '' @ error
   \<and> statusClass (onServerError error c) = ''status-message error''
   \<and> statusShown (onServerError error c)
   \<and> isRecording (onServerError error c) = isRecording c
   \<and> (mediaRecorder c \<and> isRecording c \<longrightarrow>
        \<not> mediaRecorder (onServerError error c)
      \<and> \<not> audioStream (onServerError error c)
      \<and> chunks (onServerError error c) = []
      \<and> browserCalls (onServerError error c)
          = browserCalls c @ [RecorderStop] @ (if audioStream c then [TracksStop] else []))
   \<and> (\<not> (mediaRecorder c \<and> isRecording c) \<longrightarrow>
        mediaRecorder (onServerError error c) = mediaRecorder c
      \<and> audioStream (onServerError error c) = audioStream c
      \<and> chunks (onServerError error c) = chunks c
      \<and> browserCalls (onServerError error c) = browserCalls c)"
proof -
  define c1 where "c1 = showStatus (js ''Server error: '' @ error) ''error'' c"
  have e: "onServerError error c = updateButtonState ''idle'' (stopRecording c1)"
    by (simp add: onServerError_def c1_def)
  have g: "(mediaRecorder c1 \<and> isRecording c1) = (mediaRecorder c \<and> isRecording c)"
    by (simp add: c1_def showStatus_fields)
  have run: "\<not> mediaRecorder (stopRecording c1) \<and> \<not> audioStream (stopRecording c1)
      \<and> chunks (stopRecording c1) = []
      \<and> browserCalls (stopRecording c1)
          = browserCalls c @ [RecorderStop] @ (if audioStream c then [TracksStop] else [])"
    if "mediaRecorder c \<and> isRecording c"
  proof -
    have "mediaRecorder c1" "isRecording c1"
      using that g by simp_all
    from stopRecording_running [OF this] show ?thesis
      by (simp add: c1_def showStatus_fields)
  qed
  have idle: "stopRecording c1 = c1" if "\<not> (mediaRecorder c \<and> isRecording c)"
    using that g by (simp add: stopRecording_idle)
  show ?thesis
    unfolding e
    using run idle
    by (auto simp: updateButtonState_idle stopRecording_status c1_def showStatus_fields)
qed

text \<open>The theorem at a client whose recorder has reported its start.\<close>

theorem server_error_stops_guarded_recording_witness:
  "mediaRecorder recordingClient \<and> isRecording recordingClient
   \<and> buttonText (onServerError (js ''timeout'') recordingClient) = StartRecordingLabel
   \<and> \<not> recordingClass (onServerError (js ''timeout'') recordingClient)
   \<and> \<not> mediaRecorder (onServerError (js ''timeout'') recordingClient)
   \<and> \<not> audioStream (onServerError (js ''timeout'') recordingClient)
   \<and> chunks (onServerError (js ''timeout'') recordingClient) = []
   \<and> browserCalls (onServerError (js ''timeout'') recordingClient) = [RecorderStop, TracksStop]"
proof -
  have h: "mediaRecorder recordingClient \<and> isRecording recordingClient"
    by (simp add: recordingClient_fields)
  show ?thesis
    using server_error_stops_guarded_recording [of "js ''timeout''" recordingClient] h
    by (simp add: recordingClient_fields)
qed

text \<open>
  Claim C10 fails for an error event that comes before the recorder's start event: the
  recorder has been started, \<open>isRecording\<close> is still false, and the handler stops neither
  the recorder nor the tracks; the recorder and the stream stay set while the button
  shows the idle look.
\<close>

theorem error_before_start_event_counterexample:
  "mediaRecorder startedClient \<and> audioStream startedClient \<and> \<not> isRecording startedClient
   \<and> mediaRecorder (onServerError (js ''timeout'') startedClient)
   \<and> audioStream (onServerError (js ''timeout'') startedClient)
   \<and> browserCalls (onServerError (js ''timeout'') startedClient) = []
   \<and> buttonText (onServerError (js ''timeout'') startedClient) = StartRecordingLabel
   \<and> \<not> recordingClass (onServerError (js ''timeout'') startedClient)"
  by (simp add: onServerError_def updateButtonState_idle stopRecording_idle showStatus_fields
      startedClient_fields)

end
